theory Spec2Isabelle
  imports Complex_Main "HOL-Library.Multiset"
begin

chapter \<open>The programs\<close>

section \<open>GoBank: the file-backed banking program\<close>

subsection \<open>float64 values\<close>

text \<open>
  The balance and the amounts are Go \<^verbatim>\<open>float64\<close> values. A value is NaN, an
  infinity or a finite number, carried as the rational it denotes. Comparisons with NaN are
  false and arithmetic on NaN and on the infinities is that of IEEE-754, as Go has it. The
  exact sum of two finite numbers is rounded to a float64 (to the nearest, ties to even; an
  infinity when it is too large): that rounding is the hardware's, not the repository's,
  and is the parameter \<open>rnd\<close> of the arithmetic. The two zeros are one value: they
  compare equal, and no sum or difference the program formats is a negative zero.
\<close>

datatype float64 = NaN | NegInf | Finite rat | PosInf

fun f64_le :: "float64 \<Rightarrow> float64 \<Rightarrow> bool" where
  "f64_le NaN _ = False"
| "f64_le _ NaN = False"
| "f64_le NegInf _ = True"
| "f64_le _ PosInf = True"
| "f64_le (Finite x) (Finite y) = (x \<le> y)"
| "f64_le (Finite x) NegInf = False"
| "f64_le PosInf (Finite y) = False"
| "f64_le PosInf NegInf = False"

fun f64_lt :: "float64 \<Rightarrow> float64 \<Rightarrow> bool" where
  "f64_lt NaN _ = False"
| "f64_lt _ NaN = False"
| "f64_lt (Finite x) (Finite y) = (x < y)"
| "f64_lt NegInf NegInf = False"
| "f64_lt NegInf _ = True"
| "f64_lt PosInf _ = False"
| "f64_lt (Finite x) PosInf = True"
| "f64_lt (Finite x) NegInf = False"

fun f64_neg :: "float64 \<Rightarrow> float64" where
  "f64_neg NaN = NaN"
| "f64_neg NegInf = PosInf"
| "f64_neg PosInf = NegInf"
| "f64_neg (Finite x) = Finite (- x)"

fun f64_add :: "(rat \<Rightarrow> float64) \<Rightarrow> float64 \<Rightarrow> float64 \<Rightarrow> float64" where
  "f64_add rnd NaN _ = NaN"
| "f64_add rnd _ NaN = NaN"
| "f64_add rnd (Finite x) (Finite y) = rnd (x + y)"
| "f64_add rnd PosInf NegInf = NaN"
| "f64_add rnd NegInf PosInf = NaN"
| "f64_add rnd PosInf _ = PosInf"
| "f64_add rnd _ PosInf = PosInf"
| "f64_add rnd NegInf _ = NegInf"
| "f64_add rnd _ NegInf = NegInf"

definition f64_sub :: "(rat \<Rightarrow> float64) \<Rightarrow> float64 \<Rightarrow> float64 \<Rightarrow> float64" where
  "f64_sub rnd a b = f64_add rnd a (f64_neg b)"

text \<open>\<^verbatim>\<open>x >= 0\<close> on a float64.\<close>

definition nonneg :: "float64 \<Rightarrow> bool" where
  "nonneg x = f64_le (Finite 0) x"

text \<open>
  What the properties of the sign need of the rounding: the rounded value of an exact result
  that is not negative is a number that is not negative, or +Inf. IEEE-754's rounding to
  the nearest is such a rounding.
\<close>

definition keeps_sign :: "(rat \<Rightarrow> float64) \<Rightarrow> bool" where
  "keeps_sign rnd \<longleftrightarrow> (\<forall>q. 0 \<le> q \<longrightarrow> nonneg (rnd q))"

text \<open>
  The rounding of an exact result that is a float64 already: the result itself. The
  examples below use it, on such results only.
\<close>

definition exact :: "rat \<Rightarrow> float64" where
  "exact q = Finite q"

subsection \<open>\<^verbatim>\<open>fmt.Sprintf("%.2f", x)\<close>\<close>

fun digits :: "nat \<Rightarrow> string" where
  "digits n = (if n < 10 then [''0123456789'' ! n]
               else digits (n div 10) @ [''0123456789'' ! (n mod 10)])"

declare digits.simps [simp del]

text \<open>Rounding of a non-negative rational to the nearest natural, ties to even.\<close>

definition round_half_even :: "rat \<Rightarrow> nat" where
  "round_half_even q =
     (let f = \<lfloor>q\<rfloor>; r = q - of_int f
      in nat (if r < 1 / 2 then f
              else if 1 / 2 < r then f + 1
              else if even f then f else f + 1))"

fun sprintf_2f :: "float64 \<Rightarrow> string" where
  "sprintf_2f NaN = ''NaN''"
| "sprintf_2f PosInf = ''+Inf''"
| "sprintf_2f NegInf = ''-Inf''"
| "sprintf_2f (Finite q) =
     (let n = round_half_even (\<bar>q\<bar> * 100)
      in (if q < 0 then ''-'' else '''') @ digits (n div 100) @ ''.''
         @ [''0123456789'' ! (n mod 100 div 10), ''0123456789'' ! (n mod 10)])"

subsection \<open>The program\<close>

text \<open>
  The file system is a map from file names to contents. \<^verbatim>\<open>os.ReadFile\<close> fails when
  the file is not there. \<^verbatim>\<open>strconv.ParseFloat\<close> belongs to Go's library and is a
  parameter: a function from the text to the parsed value, \<open>None\<close> when it returns an
  error. The \<^verbatim>\<open>Println\<close> calls write to the terminal only and are left out.
\<close>

type_synonym filesystem = "string \<rightharpoonup> string"

datatype go_error = File_doesnt_exist | Failed_to_parse_stored_balance

definition accountBalanceFile :: string where
  "accountBalanceFile = ''balance.txt''"

definition readBalanceFromFile ::
  "(string \<Rightarrow> float64 option) \<Rightarrow> filesystem \<Rightarrow> float64 \<times> go_error option" where
  "readBalanceFromFile parseFloat fs =
     (case fs accountBalanceFile of
        None \<Rightarrow> (Finite 1000, Some File_doesnt_exist)
      | Some balanceStr \<Rightarrow>
          (case parseFloat balanceStr of
             None \<Rightarrow> (Finite 1000, Some Failed_to_parse_stored_balance)
           | Some balance \<Rightarrow> (balance, None)))"

text \<open>
  \<^verbatim>\<open>os.WriteFile\<close> belongs to Go's library. Whether a write succeeds is for the
  operating system to say: a write that succeeds creates or replaces the file; a write that
  fails returns an error and leaves the file as the operating system left it (not there,
  untouched, emptied or partly written). The result is the file system afterwards and
  whether an error is returned.
\<close>

datatype write_outcome = Write_succeeds | Write_fails "string option"

fun os_WriteFile :: "write_outcome \<Rightarrow> string \<Rightarrow> string \<Rightarrow> filesystem \<Rightarrow> filesystem \<times> bool" where
  "os_WriteFile Write_succeeds name data fs = (fs(name \<mapsto> data), False)"
| "os_WriteFile (Write_fails left) name data fs = (fs(name := left), True)"

record bank =
  accBalance :: float64
  files :: filesystem

text \<open>
  One pass through the body of the \<^verbatim>\<open>for\<close> loop. \<open>choice\<close> and \<open>amt\<close> are the
  values the two \<^verbatim>\<open>fmt.Scan\<close> calls leave in \<^verbatim>\<open>choice\<close> and in
  \<^verbatim>\<open>depositAmt\<close> or \<^verbatim>\<open>withdrawAmt\<close> (0 when a scan fails); \<open>wr\<close> is what
  becomes of a write to a file in this pass. The program drops the error result of
  \<^verbatim>\<open>os.WriteFile\<close>. The result is \<open>None\<close> when the body returns from \<^verbatim>\<open>main\<close>,
  and the next state otherwise (after \<^verbatim>\<open>continue\<close> as well as at the end of the
  \<^verbatim>\<open>switch\<close>).
\<close>

definition menu_iteration ::
  "(rat \<Rightarrow> float64) \<Rightarrow> write_outcome \<Rightarrow> int \<Rightarrow> float64 \<Rightarrow> bank \<Rightarrow> bank option" where
  "menu_iteration rnd wr choice amt s =
     (if choice = 1 then Some s
      else if choice = 2 then
        (if f64_le amt (Finite 0) then Some s
         else
           let b = f64_add rnd (accBalance s) amt;
               formattedBalance = sprintf_2f b
           in Some (s\<lparr>accBalance := b,
                       files := fst (os_WriteFile wr ''balance.txt'' formattedBalance (files s))\<rparr>))
      else if choice = 3 then
        (if f64_le amt (Finite 0) then Some s
         else if f64_lt (accBalance s) amt then Some s
         else Some (s\<lparr>accBalance := f64_sub rnd (accBalance s) amt\<rparr>))
      else None)"

text \<open>The loop, over the inputs typed and what becomes of the write in each pass: it ends
  at the first other choice, and at the end of the input (the scan fails there and leaves
  \<^verbatim>\<open>choice\<close> 0).\<close>

fun menu_loop ::
  "(rat \<Rightarrow> float64) \<Rightarrow> bank \<Rightarrow> (int \<times> float64 \<times> write_outcome) list \<Rightarrow> bank" where
  "menu_loop rnd s [] = s"
| "menu_loop rnd s ((choice, amt, wr) # rest) =
     (case menu_iteration rnd wr choice amt s of
        None \<Rightarrow> s
      | Some s' \<Rightarrow> menu_loop rnd s' rest)"

datatype 'a ending = Panicked | Exited 'a

definition gobank_main ::
  "(rat \<Rightarrow> float64) \<Rightarrow> (string \<Rightarrow> float64 option) \<Rightarrow> filesystem
   \<Rightarrow> (int \<times> float64 \<times> write_outcome) list \<Rightarrow> bank ending" where
  "gobank_main rnd parseFloat fs inputs =
     (case readBalanceFromFile parseFloat fs of
        (accBalance0, Some err) \<Rightarrow> Panicked
      | (accBalance0, None) \<Rightarrow>
          Exited (menu_loop rnd \<lparr>accBalance = accBalance0, files = fs\<rparr> inputs))"

text \<open>
  The first version of the program: no loop and no file, an \<^verbatim>\<open>if\<close> chain over one
  choice, from the balance 1000.0. The result is the balance when \<^verbatim>\<open>main\<close> ends
  (its two \<^verbatim>\<open>return\<close> statements leave the balance as it is).
\<close>

definition gobank_once :: "(rat \<Rightarrow> float64) \<Rightarrow> int \<Rightarrow> float64 \<Rightarrow> float64" where
  "gobank_once rnd choice amt =
     (let accBalance0 = Finite 1000
      in if choice = 1 then accBalance0
         else if choice = 2 then
           (if f64_le amt (Finite 0) then accBalance0 else f64_add rnd accBalance0 amt)
         else if choice = 3 then
           (if f64_le amt (Finite 0) then accBalance0
            else if f64_lt accBalance0 amt then accBalance0
            else f64_sub rnd accBalance0 amt)
         else accBalance0)"

text \<open>A stand-in for \<^verbatim>\<open>strconv.ParseFloat\<close> on two texts, for the examples.\<close>

definition parse_two :: "string \<Rightarrow> float64 option" where
  "parse_two t = (if t = ''250.50'' then Some (Finite (501 / 2)) else None)"

section \<open>Concurrency primitives\<close>

text \<open>
  The programs of the repository use Go's channels, \<^verbatim>\<open>select\<close>, \<^verbatim>\<open>sync.Mutex\<close> and
  \<^verbatim>\<open>sync.WaitGroup\<close>. Their implementation is Go's runtime, which is not part of the
  repository; the four primitives below are modelled from the specification (sections 3
  and 4), one operation at a time. An operation either blocks, faults or returns.
\<close>

datatype fault = ClosedChannelFault | DoubleCloseFault | UnlockFault | NegativeCounterFault

datatype 'a outcome = Blocks | Faults fault | Returns 'a

subsection \<open>Channel\<close>

text \<open>
  Modelled from the spec: the channel of sections 3 and 4.1, whose implementation (Go's
  runtime) is not in the repository. A channel has a capacity (0 for an unbuffered
  channel), the buffered values in FIFO order and a closed flag. The queues of blocked
  senders and receivers are the tasks of a program whose next operation is that send or
  receive; an operation is told whether a counterpart waits.
\<close>

record 'a channel =
  capacity :: nat
  buffer :: "'a list"
  chan_closed :: bool

definition make_chan :: "nat \<Rightarrow> 'a channel" where
  "make_chan c = \<lparr>capacity = c, buffer = [], chan_closed = False\<rparr>"

text \<open>
  Modelled from the spec: \<^verbatim>\<open>send(v)\<close> fails with ClosedChannelFault if the channel is
  already closed; it blocks while the buffer is full or, if unbuffered, until a receiver is
  ready for direct handoff. The result is the channel afterwards and whether the value went
  to the waiting receiver directly.
\<close>

definition send :: "'a \<Rightarrow> bool \<Rightarrow> 'a channel \<Rightarrow> ('a channel \<times> bool) outcome" where
  "send v receiver_waits ch =
     (if chan_closed ch then Faults ClosedChannelFault
      else if capacity ch = 0 then (if receiver_waits then Returns (ch, True) else Blocks)
      else if length (buffer ch) < capacity ch
        then Returns (ch\<lparr>buffer := buffer ch @ [v]\<rparr>, False)
      else Blocks)"

text \<open>
  Modelled from the spec: \<^verbatim>\<open>receive()\<close> blocks while empty and open; returns buffered
  or handed-off values in FIFO order; once closed and drained it returns
  \<^verbatim>\<open>(zero-value, open=false)\<close>. \<open>sender_offers\<close> is the value of a sender that waits.
  The result is the pair \<^verbatim>\<open>(value, open)\<close>, the channel afterwards and whether the value
  came from the waiting sender directly.
\<close>

definition receive ::
  "'a option \<Rightarrow> ('a::zero) channel \<Rightarrow> (('a \<times> bool) \<times> 'a channel \<times> bool) outcome" where
  "receive sender_offers ch =
     (case buffer ch of
        v # rest \<Rightarrow> Returns ((v, True), ch\<lparr>buffer := rest\<rparr>, False)
      | [] \<Rightarrow>
          if chan_closed ch then Returns ((0, False), ch, False)
          else (case sender_offers of
                  Some v \<Rightarrow> Returns ((v, True), ch, True)
                | None \<Rightarrow> Blocks))"

text \<open>Modelled from the spec: \<^verbatim>\<open>close()\<close> is a one-shot open-to-closed transition;
  closing twice fails with DoubleCloseFault.\<close>

definition close :: "'a channel \<Rightarrow> 'a channel outcome" where
  "close ch =
     (if chan_closed ch then Faults DoubleCloseFault else Returns (ch\<lparr>chan_closed := True\<rparr>))"

text \<open>A sequence of operations on one channel, by any tasks: the channel after each.\<close>

datatype 'a chan_op = Send 'a bool | Receive "'a option" | Close

fun chan_after :: "('a::zero) chan_op \<Rightarrow> 'a channel \<Rightarrow> 'a channel" where
  "chan_after (Send v w) ch = (case send v w ch of Returns (ch', h) \<Rightarrow> ch' | _ \<Rightarrow> ch)"
| "chan_after (Receive w) ch = (case receive w ch of Returns (r, ch', h) \<Rightarrow> ch' | _ \<Rightarrow> ch)"
| "chan_after Close ch = (case close ch of Returns ch' \<Rightarrow> ch' | _ \<Rightarrow> ch)"

fun chan_after_all :: "('a::zero) chan_op list \<Rightarrow> 'a channel \<Rightarrow> 'a channel" where
  "chan_after_all [] ch = ch"
| "chan_after_all (op # ops) ch = chan_after_all ops (chan_after op ch)"

subsection \<open>Select\<close>

text \<open>
  Modelled from the spec: the select of section 4.2. A send is ready if the buffer has room
  or a receiver waits; a receive is ready if the buffer is non-empty, a sender waits, or
  the channel is closed. If at least one candidate is ready, one of the ready ones is
  chosen (\<open>pick\<close> stands for the random choice); if none is ready and there is a default,
  the default runs; if none is ready and there is no default, the select blocks.
\<close>

datatype 'a candidate = SendCase "'a channel" 'a bool | RecvCase "'a channel" "'a option"

fun ready :: "'a candidate \<Rightarrow> bool" where
  "ready (SendCase ch v receiver_waits) =
     (length (buffer ch) < capacity ch \<or> receiver_waits)"
| "ready (RecvCase ch sender_offers) =
     (buffer ch \<noteq> [] \<or> sender_offers \<noteq> None \<or> chan_closed ch)"

datatype selected = Fired nat | RunDefault | SelectBlocks

definition select :: "nat \<Rightarrow> 'a candidate list \<Rightarrow> bool \<Rightarrow> selected" where
  "select pick cands has_default =
     (let rs = filter (\<lambda>i. ready (cands ! i)) [0..<length cands]
      in if rs \<noteq> [] then Fired (rs ! (pick mod length rs))
         else if has_default then RunDefault
         else SelectBlocks)"

text \<open>
  Modelled from the spec: the candidate chosen is executed (section 4.2: "choose one ... and
  execute it"). \<open>perform\<close> is the operation of a candidate, a send or a receive, and
  \<open>select_run\<close> is a select together with the execution of what it chose: the case that
  fired and the outcome of its operation, or the default, or blocking.
\<close>

datatype 'a performed =
  Sent "('a channel \<times> bool) outcome" | Recvd "(('a \<times> bool) \<times> 'a channel \<times> bool) outcome"

fun perform :: "('a::zero) candidate \<Rightarrow> 'a performed" where
  "perform (SendCase ch v receiver_waits) = Sent (send v receiver_waits ch)"
| "perform (RecvCase ch sender_offers) = Recvd (receive sender_offers ch)"

datatype 'a select_result = Ran nat "'a performed" | RanDefault | SelectBlocked

definition select_run :: "nat \<Rightarrow> ('a::zero) candidate list \<Rightarrow> bool \<Rightarrow> 'a select_result" where
  "select_run pick cands has_default =
     (case select pick cands has_default of
        Fired i \<Rightarrow> Ran i (perform (cands ! i))
      | RunDefault \<Rightarrow> RanDefault
      | SelectBlocks \<Rightarrow> SelectBlocked)"

text \<open>
  The \<^verbatim>\<open>select\<close> of \<^verbatim>\<open>channels.md\<close>: a receive from \<^verbatim>\<open>ch1\<close>, a receive from
  \<^verbatim>\<open>ch2\<close> and a default. \<open>sender1\<close> and \<open>sender2\<close> are the values of the senders that
  wait on the two channels, if any. The result is what is printed, the two channels
  afterwards and whether the message came from a waiting sender directly (whose send is
  then done); it is \<open>None\<close> if the statement blocks.
\<close>

datatype 'a printed = Received 'a | No_message_received

definition select_example ::
  "nat \<Rightarrow> ('a::zero) channel \<Rightarrow> 'a option \<Rightarrow> 'a channel \<Rightarrow> 'a option
   \<Rightarrow> ('a printed \<times> 'a channel \<times> 'a channel \<times> bool) option" where
  "select_example pick ch1 sender1 ch2 sender2 =
     (case select_run pick [RecvCase ch1 sender1, RecvCase ch2 sender2] True of
        Ran i (Recvd (Returns ((msg, ok), ch', from_sender))) \<Rightarrow>
          if i = 0 then Some (Received msg, ch', ch2, from_sender)
          else Some (Received msg, ch1, ch', from_sender)
      | RanDefault \<Rightarrow> Some (No_message_received, ch1, ch2, False)
      | _ \<Rightarrow> None)"

subsection \<open>Mutex and WaitGroup\<close>

text \<open>
  Modelled from the spec: the mutex of section 4.3, as its holder if it is locked.
  \<^verbatim>\<open>lock\<close> blocks while locked (also for the holder itself: the mutex is not
  reentrant); unlocking an unlocked mutex, or from a non-holder, is a fault.
\<close>

type_synonym mutex = "nat option"

definition lock :: "nat \<Rightarrow> mutex \<Rightarrow> mutex outcome" where
  "lock task m = (case m of None \<Rightarrow> Returns (Some task) | Some holder \<Rightarrow> Blocks)"

definition unlock :: "nat \<Rightarrow> mutex \<Rightarrow> mutex outcome" where
  "unlock task m = (if m = Some task then Returns None else Faults UnlockFault)"

text \<open>
  Modelled from the spec: the WaitGroup of section 4.4, as its counter. \<^verbatim>\<open>add(n)\<close>
  adds n; making the counter negative is a fault. \<^verbatim>\<open>done()\<close> is \<^verbatim>\<open>add(-1)\<close>.
  \<^verbatim>\<open>wait()\<close> blocks until the counter is 0 and returns immediately if it already is.
\<close>

definition wg_add :: "int \<Rightarrow> int \<Rightarrow> int outcome" where
  "wg_add n counter = (if counter + n < 0 then Faults NegativeCounterFault else Returns (counter + n))"

definition wg_done :: "int \<Rightarrow> int outcome" where
  "wg_done counter = wg_add (- 1) counter"

definition wg_wait :: "int \<Rightarrow> unit outcome" where
  "wg_wait counter = (if counter = 0 then Returns () else Blocks)"

subsection \<open>Runs of a program\<close>

text \<open>
  A program of several tasks is a step function: \<open>step e s\<close> is the state after the task
  named by \<open>e\<close> has performed its next operation in \<open>s\<close>, and \<open>None\<close> when that task
  cannot move (it is blocked or has ended). A run is a list of such moves, in the order the
  scheduler makes them; every interleaving of the tasks is a run.
\<close>

fun exec :: "('e \<Rightarrow> 's \<Rightarrow> 's option) \<Rightarrow> 'e list \<Rightarrow> 's \<Rightarrow> 's option" where
  "exec step [] s = Some s"
| "exec step (e # es) s = (case step e s of None \<Rightarrow> None | Some s' \<Rightarrow> exec step es s')"

section \<open>Ranging over a channel: one producer, one consumer\<close>

text \<open>
  The program of the notes on \<^verbatim>\<open>range\<close>:
  \<^verbatim>\<open>
  ch := make(chan int)
  go func() {
      for i := 1; i <= 3; i++ { ch <- i }
      close(ch)
  }()
  for val := range ch { fmt.Println(val) }
  \<close>
  The capacity of the channel (0 in the source) and the values sent (1, 2, 3 in the source)
  are parameters. The producer is at the send of the first value left, or at
  \<^verbatim>\<open>close(ch)\<close> when none is left, or has returned. The consumer is in its
  \<^verbatim>\<open>range\<close> loop, where a receive and the \<^verbatim>\<open>Println\<close> of the value are one move,
  or past it.
\<close>

datatype producer = Sending "int list" | Returned

datatype consumer = Ranging | Finished

record range_state =
  range_ch :: "int channel"
  prod_pc :: producer
  cons_pc :: consumer
  printed_vals :: "int list"
  range_panic :: "fault option"

datatype party = Producer | Consumer

definition range_init :: "nat \<Rightarrow> int list \<Rightarrow> range_state" where
  "range_init c vals =
     \<lparr>range_ch = make_chan c, prod_pc = Sending vals, cons_pc = Ranging, printed_vals = [],
      range_panic = None\<rparr>"

definition source_range_init :: range_state where
  "source_range_init = range_init 0 [1, 2, 3]"

text \<open>A receiver waits when the consumer is at its receive and there is nothing for it
  to take; a sender waits when the producer is at a send that cannot go into the buffer.\<close>

definition receiver_waits :: "range_state \<Rightarrow> bool" where
  "receiver_waits s =
     (cons_pc s = Ranging \<and> buffer (range_ch s) = [] \<and> \<not> chan_closed (range_ch s))"

definition sender_offers :: "range_state \<Rightarrow> int option" where
  "sender_offers s =
     (case prod_pc s of
        Sending (v # vs) \<Rightarrow>
          if length (buffer (range_ch s)) < capacity (range_ch s) then None else Some v
      | _ \<Rightarrow> None)"

definition producer_step :: "range_state \<Rightarrow> range_state option" where
  "producer_step s =
     (case prod_pc s of
        Returned \<Rightarrow> None
      | Sending [] \<Rightarrow>
          (case close (range_ch s) of
             Blocks \<Rightarrow> None
           | Faults f \<Rightarrow> Some (s\<lparr>range_panic := Some f\<rparr>)
           | Returns ch' \<Rightarrow> Some (s\<lparr>range_ch := ch', prod_pc := Returned\<rparr>))
      | Sending (v # vs) \<Rightarrow>
          (case send v (receiver_waits s) (range_ch s) of
             Blocks \<Rightarrow> None
           | Faults f \<Rightarrow> Some (s\<lparr>range_panic := Some f\<rparr>)
           | Returns (ch', handed) \<Rightarrow>
               Some (s\<lparr>range_ch := ch', prod_pc := Sending vs,
                       printed_vals := (if handed then printed_vals s @ [v]
                                        else printed_vals s)\<rparr>)))"

definition consumer_step :: "range_state \<Rightarrow> range_state option" where
  "consumer_step s =
     (case cons_pc s of
        Finished \<Rightarrow> None
      | Ranging \<Rightarrow>
          (case receive (sender_offers s) (range_ch s) of
             Blocks \<Rightarrow> None
           | Faults f \<Rightarrow> Some (s\<lparr>range_panic := Some f\<rparr>)
           | Returns ((val, ok), ch', from_sender) \<Rightarrow>
               if ok then
                 Some (s\<lparr>range_ch := ch', printed_vals := printed_vals s @ [val],
                         prod_pc := (if from_sender
                                  then (case prod_pc s of Sending (v # vs) \<Rightarrow> Sending vs | p \<Rightarrow> p)
                                  else prod_pc s)\<rparr>)
               else Some (s\<lparr>cons_pc := Finished\<rparr>)))"

text \<open>A panic ends the program: no task moves after it.\<close>

definition range_step :: "party \<Rightarrow> range_state \<Rightarrow> range_state option" where
  "range_step e s =
     (if range_panic s \<noteq> None then None
      else case e of Producer \<Rightarrow> producer_step s | Consumer \<Rightarrow> consumer_step s)"

text \<open>The values not yet sent.\<close>

fun unsent :: "producer \<Rightarrow> int list" where
  "unsent (Sending vs) = vs"
| "unsent Returned = []"

subsection \<open>Invariant\<close>

definition range_inv :: "int list \<Rightarrow> range_state \<Rightarrow> bool" where
  "range_inv vals s \<longleftrightarrow>
     range_panic s = None
     \<and> printed_vals s @ buffer (range_ch s) @ unsent (prod_pc s) = vals
     \<and> (chan_closed (range_ch s) \<longleftrightarrow> prod_pc s = Returned)
     \<and> (cons_pc s = Finished \<longrightarrow> chan_closed (range_ch s) \<and> buffer (range_ch s) = [])"

definition range_measure :: "range_state \<Rightarrow> nat" where
  "range_measure s =
     2 * length (unsent (prod_pc s)) + length (buffer (range_ch s))
     + (if prod_pc s = Returned then 0 else 1) + (if cons_pc s = Finished then 0 else 1)"

section \<open>Tasks and a WaitGroup\<close>

text \<open>
  The program of \<^verbatim>\<open>20_goRoutines/goRoutines.go\<close>:
  \<^verbatim>\<open>
  func task(id int, w *sync.WaitGroup) {
      defer w.Done()
      fmt.Println("Doing Task:", id)
  }
  func main() {
      var wg sync.WaitGroup
      for i := 0; i <= 10; i++ {
          wg.Add(1)
          go task(i, &wg)
      }
      wg.Wait()
  }
  \<close>
  The last value of \<open>i\<close> (10 in the source) is a parameter. A task is at its
  \<^verbatim>\<open>Println\<close>, at its deferred \<^verbatim>\<open>w.Done()\<close>, or has ended. \<^verbatim>\<open>main\<close> is at
  the \<^verbatim>\<open>wg.Add(1)\<close> or at the \<^verbatim>\<open>go\<close> statement of iteration \<open>i\<close>, at
  \<^verbatim>\<open>wg.Wait()\<close>, or has returned; when it has returned the program is over.
\<close>

datatype task_pc = Doing nat | Deferred | TaskEnded

datatype main_pc = Adding nat | Spawning nat | Waiting | MainReturned

record tasks_state =
  wg :: int
  main_at :: main_pc
  tasks :: "task_pc list"
  tasks_panic :: "fault option"

datatype mover = Main | Task nat

definition tasks_init :: tasks_state where
  "tasks_init = \<lparr>wg = 0, main_at = Adding 0, tasks = [], tasks_panic = None\<rparr>"

definition tasks_main_step :: "nat \<Rightarrow> tasks_state \<Rightarrow> tasks_state option" where
  "tasks_main_step last_i s =
     (case main_at s of
        Adding i \<Rightarrow>
          (case wg_add 1 (wg s) of
             Blocks \<Rightarrow> None
           | Faults f \<Rightarrow> Some (s\<lparr>tasks_panic := Some f\<rparr>)
           | Returns c \<Rightarrow> Some (s\<lparr>wg := c, main_at := Spawning i\<rparr>))
      | Spawning i \<Rightarrow>
          Some (s\<lparr>tasks := tasks s @ [Doing i],
                  main_at := (if i + 1 \<le> last_i then Adding (i + 1) else Waiting)\<rparr>)
      | Waiting \<Rightarrow>
          (case wg_wait (wg s) of
             Blocks \<Rightarrow> None
           | Faults f \<Rightarrow> Some (s\<lparr>tasks_panic := Some f\<rparr>)
           | Returns u \<Rightarrow> Some (s\<lparr>main_at := MainReturned\<rparr>))
      | MainReturned \<Rightarrow> None)"

definition task_step :: "nat \<Rightarrow> tasks_state \<Rightarrow> tasks_state option" where
  "task_step k s =
     (if k < length (tasks s) then
        (case tasks s ! k of
           Doing task_id \<Rightarrow> Some (s\<lparr>tasks := (tasks s)[k := Deferred]\<rparr>)
         | Deferred \<Rightarrow>
             (case wg_done (wg s) of
                Blocks \<Rightarrow> None
              | Faults f \<Rightarrow> Some (s\<lparr>tasks_panic := Some f\<rparr>)
              | Returns c \<Rightarrow> Some (s\<lparr>wg := c, tasks := (tasks s)[k := TaskEnded]\<rparr>))
         | TaskEnded \<Rightarrow> None)
      else None)"

definition tasks_step :: "nat \<Rightarrow> mover \<Rightarrow> tasks_state \<Rightarrow> tasks_state option" where
  "tasks_step last_i e s =
     (if tasks_panic s \<noteq> None \<or> main_at s = MainReturned then None
      else case e of Main \<Rightarrow> tasks_main_step last_i s | Task k \<Rightarrow> task_step k s)"

subsection \<open>Invariant\<close>

text \<open>The number of tasks that have not yet called \<^verbatim>\<open>Done\<close>, and the moves left.\<close>

fun pending :: "task_pc \<Rightarrow> nat" where
  "pending TaskEnded = 0"
| "pending _ = 1"

fun task_moves :: "task_pc \<Rightarrow> nat" where
  "task_moves (Doing i) = 2"
| "task_moves Deferred = 1"
| "task_moves TaskEnded = 0"

fun main_moves :: "nat \<Rightarrow> main_pc \<Rightarrow> nat" where
  "main_moves last_i (Adding i) = 4 * (last_i + 1 - i) + 1"
| "main_moves last_i (Spawning i) = 4 * (last_i + 1 - i)"
| "main_moves last_i Waiting = 1"
| "main_moves last_i MainReturned = 0"

definition tasks_measure :: "nat \<Rightarrow> tasks_state \<Rightarrow> nat" where
  "tasks_measure last_i s = main_moves last_i (main_at s) + sum_list (map task_moves (tasks s))"

fun spawned :: "nat \<Rightarrow> main_pc \<Rightarrow> nat" where
  "spawned last_i (Adding i) = i"
| "spawned last_i (Spawning i) = i"
| "spawned last_i Waiting = last_i + 1"
| "spawned last_i MainReturned = last_i + 1"

fun added :: "main_pc \<Rightarrow> int" where
  "added (Spawning i) = 1"
| "added _ = 0"

fun in_loop :: "nat \<Rightarrow> main_pc \<Rightarrow> bool" where
  "in_loop last_i (Adding i) = (i \<le> last_i)"
| "in_loop last_i (Spawning i) = (i \<le> last_i)"
| "in_loop last_i _ = True"

definition tasks_inv :: "nat \<Rightarrow> tasks_state \<Rightarrow> bool" where
  "tasks_inv last_i s \<longleftrightarrow>
     tasks_panic s = None
     \<and> wg s = int (sum_list (map pending (tasks s))) + added (main_at s)
     \<and> length (tasks s) = spawned last_i (main_at s)
     \<and> in_loop last_i (main_at s)
     \<and> (main_at s = MainReturned \<longrightarrow> wg s = 0)"

text \<open>A run of the program as the source has it (\<open>i\<close> from 0 to 10): \<^verbatim>\<open>main\<close> adds
  and spawns eleven times, the tasks run from the last to the first, \<^verbatim>\<open>main\<close> returns
  from \<^verbatim>\<open>wg.Wait()\<close>.\<close>

definition source_tasks_run :: "mover list" where
  "source_tasks_run =
     concat (map (\<lambda>i. [Main, Main]) [0..<11])
     @ concat (map (\<lambda>i. [Task i, Task i]) (rev [0..<11])) @ [Main]"

section \<open>A counter under a mutex\<close>

text \<open>
  The program of \<^verbatim>\<open>22_mutex/mutex.go\<close>:
  \<^verbatim>\<open>
  type post struct { views int; mu sync.Mutex }
  func (p *post) incView(wg *sync.WaitGroup) {
      defer func() { wg.Done(); p.mu.Unlock() }()
      p.mu.Lock()
      p.views++
  }
  func main() {
      var wg sync.WaitGroup
      myPost := post{views: 0}
      for i := 0; i < 100; i++ { wg.Add(1); go myPost.incView(&wg) }
      wg.Wait()
      fmt.Println(myPost.views)
  }
  \<close>
  The number of iterations (100 in the source) is a parameter. \<^verbatim>\<open>p.views++\<close> is not
  atomic: it is a read of \<^verbatim>\<open>p.views\<close> and a write of the value read plus one, and other
  tasks may move in between. A call of \<^verbatim>\<open>incView\<close> is at \<^verbatim>\<open>p.mu.Lock()\<close>, at the
  read, at the write (with the value read), at the deferred \<^verbatim>\<open>wg.Done()\<close>, at the
  deferred \<^verbatim>\<open>p.mu.Unlock()\<close>, or has ended. \<^verbatim>\<open>views\<close> is an unbounded integer here
  (a Go \<^verbatim>\<open>int\<close> has 64 bits).
\<close>

record post =
  views :: int
  mu :: mutex

datatype inc_pc = AtLock | AtRead | AtWrite int | AtDone | AtUnlock | IncEnded

datatype post_main_pc = PAdding nat | PSpawning nat | PWaiting | PPrinting | PReturned

record post_state =
  myPost :: post
  post_wg :: int
  post_main :: post_main_pc
  viewers :: "inc_pc list"
  printed_views :: "int option"
  post_panic :: "fault option"

datatype post_mover = PostMain | IncView nat

definition post_init :: "nat \<Rightarrow> post_state" where
  "post_init n =
     \<lparr>myPost = \<lparr>views = 0, mu = None\<rparr>, post_wg = 0,
      post_main = (if 0 < n then PAdding 0 else PWaiting),
      viewers = [], printed_views = None, post_panic = None\<rparr>"

definition post_main_step :: "nat \<Rightarrow> post_state \<Rightarrow> post_state option" where
  "post_main_step n s =
     (case post_main s of
        PAdding i \<Rightarrow>
          (case wg_add 1 (post_wg s) of
             Blocks \<Rightarrow> None
           | Faults f \<Rightarrow> Some (s\<lparr>post_panic := Some f\<rparr>)
           | Returns c \<Rightarrow> Some (s\<lparr>post_wg := c, post_main := PSpawning i\<rparr>))
      | PSpawning i \<Rightarrow>
          Some (s\<lparr>viewers := viewers s @ [AtLock],
                  post_main := (if i + 1 < n then PAdding (i + 1) else PWaiting)\<rparr>)
      | PWaiting \<Rightarrow>
          (case wg_wait (post_wg s) of
             Blocks \<Rightarrow> None
           | Faults f \<Rightarrow> Some (s\<lparr>post_panic := Some f\<rparr>)
           | Returns u \<Rightarrow> Some (s\<lparr>post_main := PPrinting\<rparr>))
      | PPrinting \<Rightarrow>
          Some (s\<lparr>printed_views := Some (views (myPost s)), post_main := PReturned\<rparr>)
      | PReturned \<Rightarrow> None)"

definition incView :: "nat \<Rightarrow> post_state \<Rightarrow> post_state option" where
  "incView k s =
     (if k < length (viewers s) then
        (case viewers s ! k of
           AtLock \<Rightarrow>
             (case lock k (mu (myPost s)) of
                Blocks \<Rightarrow> None
              | Faults f \<Rightarrow> Some (s\<lparr>post_panic := Some f\<rparr>)
              | Returns m \<Rightarrow>
                  Some (s\<lparr>myPost := (myPost s)\<lparr>mu := m\<rparr>, viewers := (viewers s)[k := AtRead]\<rparr>))
         | AtRead \<Rightarrow> Some (s\<lparr>viewers := (viewers s)[k := AtWrite (views (myPost s))]\<rparr>)
         | AtWrite r \<Rightarrow>
             Some (s\<lparr>myPost := (myPost s)\<lparr>views := r + 1\<rparr>, viewers := (viewers s)[k := AtDone]\<rparr>)
         | AtDone \<Rightarrow>
             (case wg_done (post_wg s) of
                Blocks \<Rightarrow> None
              | Faults f \<Rightarrow> Some (s\<lparr>post_panic := Some f\<rparr>)
              | Returns c \<Rightarrow> Some (s\<lparr>post_wg := c, viewers := (viewers s)[k := AtUnlock]\<rparr>))
         | AtUnlock \<Rightarrow>
             (case unlock k (mu (myPost s)) of
                Blocks \<Rightarrow> None
              | Faults f \<Rightarrow> Some (s\<lparr>post_panic := Some f\<rparr>)
              | Returns m \<Rightarrow>
                  Some (s\<lparr>myPost := (myPost s)\<lparr>mu := m\<rparr>, viewers := (viewers s)[k := IncEnded]\<rparr>))
         | IncEnded \<Rightarrow> None)
      else None)"

definition post_step :: "nat \<Rightarrow> post_mover \<Rightarrow> post_state \<Rightarrow> post_state option" where
  "post_step n e s =
     (if post_panic s \<noteq> None \<or> post_main s = PReturned then None
      else case e of PostMain \<Rightarrow> post_main_step n s | IncView k \<Rightarrow> incView k s)"

subsection \<open>Invariant\<close>

text \<open>A call that has not made its \<^verbatim>\<open>Done()\<close> call; a call that has written
  \<^verbatim>\<open>views\<close>; a call that holds the mutex; the moves a call has left.\<close>

fun not_done :: "inc_pc \<Rightarrow> nat" where
  "not_done AtUnlock = 0"
| "not_done IncEnded = 0"
| "not_done _ = 1"

fun stored :: "inc_pc \<Rightarrow> nat" where
  "stored AtDone = 1"
| "stored AtUnlock = 1"
| "stored IncEnded = 1"
| "stored _ = 0"

fun holds :: "inc_pc \<Rightarrow> bool" where
  "holds AtLock = False"
| "holds IncEnded = False"
| "holds _ = True"

fun inc_moves :: "inc_pc \<Rightarrow> nat" where
  "inc_moves AtLock = 5"
| "inc_moves AtRead = 4"
| "inc_moves (AtWrite r) = 3"
| "inc_moves AtDone = 2"
| "inc_moves AtUnlock = 1"
| "inc_moves IncEnded = 0"

fun post_main_moves :: "nat \<Rightarrow> post_main_pc \<Rightarrow> nat" where
  "post_main_moves n (PAdding i) = 7 * (n - i) + 2"
| "post_main_moves n (PSpawning i) = 7 * (n - i) + 1"
| "post_main_moves n PWaiting = 2"
| "post_main_moves n PPrinting = 1"
| "post_main_moves n PReturned = 0"

definition post_measure :: "nat \<Rightarrow> post_state \<Rightarrow> nat" where
  "post_measure n s = post_main_moves n (post_main s) + sum_list (map inc_moves (viewers s))"

fun post_spawned :: "nat \<Rightarrow> post_main_pc \<Rightarrow> nat" where
  "post_spawned n (PAdding i) = i"
| "post_spawned n (PSpawning i) = i"
| "post_spawned n _ = n"

fun post_added :: "post_main_pc \<Rightarrow> int" where
  "post_added (PSpawning i) = 1"
| "post_added _ = 0"

fun post_in_loop :: "nat \<Rightarrow> post_main_pc \<Rightarrow> bool" where
  "post_in_loop n (PAdding i) = (i < n)"
| "post_in_loop n (PSpawning i) = (i < n)"
| "post_in_loop n _ = True"

fun past_wait :: "post_main_pc \<Rightarrow> bool" where
  "past_wait PPrinting = True"
| "past_wait PReturned = True"
| "past_wait _ = False"

definition counts_inv :: "nat \<Rightarrow> post_state \<Rightarrow> bool" where
  "counts_inv n s \<longleftrightarrow>
     post_panic s = None
     \<and> post_wg s = int (sum_list (map not_done (viewers s))) + post_added (post_main s)
     \<and> views (myPost s) = int (sum_list (map stored (viewers s)))
     \<and> length (viewers s) = post_spawned n (post_main s)
     \<and> post_in_loop n (post_main s)
     \<and> (past_wait (post_main s) \<longrightarrow> post_wg s = 0)
     \<and> (post_main s = PReturned \<longrightarrow> printed_views s = Some (int n))"

definition lock_inv :: "post_state \<Rightarrow> bool" where
  "lock_inv s \<longleftrightarrow>
     (\<forall>k < length (viewers s). holds (viewers s ! k) \<longleftrightarrow> mu (myPost s) = Some k)
     \<and> (\<forall>k. mu (myPost s) = Some k \<longrightarrow> k < length (viewers s))
     \<and> (\<forall>k < length (viewers s). \<forall>r. viewers s ! k = AtWrite r \<longrightarrow> r = views (myPost s))"

definition post_inv :: "nat \<Rightarrow> post_state \<Rightarrow> bool" where
  "post_inv n s \<longleftrightarrow> counts_inv n s \<and> lock_inv s"

text \<open>A run of the program as the source has it (100 iterations): \<^verbatim>\<open>main\<close> adds and
  spawns a hundred times; the calls 1 to 99 run one after the other; call 0 locks, reads,
  writes and calls \<^verbatim>\<open>Done()\<close>; \<^verbatim>\<open>main\<close> returns from \<^verbatim>\<open>wg.Wait()\<close> and prints,
  before call 0 has unlocked the mutex.\<close>

definition source_post_run :: "post_mover list" where
  "source_post_run =
     concat (map (\<lambda>i. [PostMain, PostMain]) [0..<100])
     @ concat (map (\<lambda>i. [IncView i, IncView i, IncView i, IncView i, IncView i]) [1..<100])
     @ [IncView 0, IncView 0, IncView 0, IncView 0, PostMain, PostMain]"

section \<open>The worker pool\<close>

text \<open>
  The program of \<^verbatim>\<open>21_channels/channels.md\<close>:
  \<^verbatim>\<open>
  func worker(id int, jobs <-chan int, results chan<- int) {
      for j := range jobs {
          fmt.Println("Worker", id, "processing job", j)
          results <- j * 2
      }
  }
  func main() {
      jobs := make(chan int, 5)
      results := make(chan int, 5)
      for w := 1; w <= 3; w++ { go worker(w, jobs, results) }
      for j := 1; j <= 5; j++ { jobs <- j }
      close(jobs)
      for r := 1; r <= 5; r++ { fmt.Println(<-results) }
  }
  \<close>
  The number of workers (3 in the source) and the number of jobs (5 in the source, in the
  loop that feeds the jobs and in the loop that collects the results) are parameters; both
  channels have capacity 5, as in the source. Both channels are buffered, so no send or
  receive is a direct handoff. A worker is at the receive of its \<^verbatim>\<open>range\<close> loop, at the
  send of the result for the job it has received, or has ended. \<^verbatim>\<open>main\<close> is at the
  \<^verbatim>\<open>go\<close> statement for worker \<open>w\<close>, at the send of job \<open>j\<close>, at \<^verbatim>\<open>close(jobs)\<close>,
  at the receive of result number \<open>r\<close> (which it prints), or has returned; when it has
  returned the program is over. Jobs and results are unbounded integers here (a Go
  \<^verbatim>\<open>int\<close> has 64 bits).
\<close>

datatype worker_pc = WRanging | WSending int | WEnded

datatype pool_main_pc = Starting nat | Feeding nat | ClosingJobs | Collecting nat | PoolReturned

record pool_state =
  jobs :: "int channel"
  results :: "int channel"
  pool_main :: pool_main_pc
  workers :: "worker_pc list"
  collected :: "int list"
  pool_panic :: "fault option"

datatype pool_mover = PoolMain | Worker nat

text \<open>Where \<^verbatim>\<open>main\<close> stands when a loop variable has the value given: in the body of
  the loop, or past the loop.\<close>

definition collect_from :: "nat \<Rightarrow> nat \<Rightarrow> pool_main_pc" where
  "collect_from n_jobs r = (if r \<le> n_jobs then Collecting r else PoolReturned)"

definition feed_from :: "nat \<Rightarrow> nat \<Rightarrow> pool_main_pc" where
  "feed_from n_jobs j = (if j \<le> n_jobs then Feeding j else ClosingJobs)"

definition start_from :: "nat \<Rightarrow> nat \<Rightarrow> nat \<Rightarrow> pool_main_pc" where
  "start_from n_workers n_jobs w = (if w \<le> n_workers then Starting w else feed_from n_jobs 1)"

definition pool_init :: "nat \<Rightarrow> nat \<Rightarrow> pool_state" where
  "pool_init n_workers n_jobs =
     \<lparr>jobs = make_chan 5, results = make_chan 5, pool_main = start_from n_workers n_jobs 1,
      workers = [], collected = [], pool_panic = None\<rparr>"

definition pool_main_step :: "nat \<Rightarrow> nat \<Rightarrow> pool_state \<Rightarrow> pool_state option" where
  "pool_main_step n_workers n_jobs s =
     (case pool_main s of
        Starting w \<Rightarrow>
          Some (s\<lparr>workers := workers s @ [WRanging],
                  pool_main := start_from n_workers n_jobs (w + 1)\<rparr>)
      | Feeding j \<Rightarrow>
          (case send (int j) False (jobs s) of
             Blocks \<Rightarrow> None
           | Faults f \<Rightarrow> Some (s\<lparr>pool_panic := Some f\<rparr>)
           | Returns (ch', handed) \<Rightarrow>
               Some (s\<lparr>jobs := ch', pool_main := feed_from n_jobs (j + 1)\<rparr>))
      | ClosingJobs \<Rightarrow>
          (case close (jobs s) of
             Blocks \<Rightarrow> None
           | Faults f \<Rightarrow> Some (s\<lparr>pool_panic := Some f\<rparr>)
           | Returns ch' \<Rightarrow> Some (s\<lparr>jobs := ch', pool_main := collect_from n_jobs 1\<rparr>))
      | Collecting r \<Rightarrow>
          (case receive None (results s) of
             Blocks \<Rightarrow> None
           | Faults f \<Rightarrow> Some (s\<lparr>pool_panic := Some f\<rparr>)
           | Returns ((v, ok), ch', from_sender) \<Rightarrow>
               Some (s\<lparr>results := ch', collected := collected s @ [v],
                       pool_main := collect_from n_jobs (r + 1)\<rparr>))
      | PoolReturned \<Rightarrow> None)"

definition worker :: "nat \<Rightarrow> pool_state \<Rightarrow> pool_state option" where
  "worker k s =
     (if k < length (workers s) then
        (case workers s ! k of
           WRanging \<Rightarrow>
             (case receive None (jobs s) of
                Blocks \<Rightarrow> None
              | Faults f \<Rightarrow> Some (s\<lparr>pool_panic := Some f\<rparr>)
              | Returns ((j, ok), ch', from_sender) \<Rightarrow>
                  if ok then Some (s\<lparr>jobs := ch', workers := (workers s)[k := WSending j]\<rparr>)
                  else Some (s\<lparr>workers := (workers s)[k := WEnded]\<rparr>))
         | WSending j \<Rightarrow>
             (case send (j * 2) False (results s) of
                Blocks \<Rightarrow> None
              | Faults f \<Rightarrow> Some (s\<lparr>pool_panic := Some f\<rparr>)
              | Returns (ch', handed) \<Rightarrow>
                  Some (s\<lparr>results := ch', workers := (workers s)[k := WRanging]\<rparr>))
         | WEnded \<Rightarrow> None)
      else None)"

definition pool_step :: "nat \<Rightarrow> nat \<Rightarrow> pool_mover \<Rightarrow> pool_state \<Rightarrow> pool_state option" where
  "pool_step n_workers n_jobs e s =
     (if pool_panic s \<noteq> None \<or> pool_main s = PoolReturned then None
      else case e of PoolMain \<Rightarrow> pool_main_step n_workers n_jobs s | Worker k \<Rightarrow> worker k s)"

subsection \<open>Invariant\<close>

text \<open>The results expected: the double of each job. The jobs \<^verbatim>\<open>main\<close> has not sent
  yet, and the result a worker is about to send.\<close>

definition expected :: "nat \<Rightarrow> int list" where
  "expected n_jobs = map (\<lambda>j. int j * 2) [1..<Suc n_jobs]"

fun unsent_jobs :: "nat \<Rightarrow> pool_main_pc \<Rightarrow> int list" where
  "unsent_jobs n_jobs (Starting w) = map int [1..<Suc n_jobs]"
| "unsent_jobs n_jobs (Feeding j) = map int [j..<Suc n_jobs]"
| "unsent_jobs n_jobs _ = []"

fun in_hand :: "worker_pc \<Rightarrow> int multiset" where
  "in_hand (WSending j) = {#j * 2#}"
| "in_hand _ = {#}"

fun worker_moves :: "worker_pc \<Rightarrow> nat" where
  "worker_moves WRanging = 1"
| "worker_moves (WSending j) = 2"
| "worker_moves WEnded = 0"

fun pool_main_moves :: "nat \<Rightarrow> nat \<Rightarrow> pool_main_pc \<Rightarrow> nat" where
  "pool_main_moves n_workers n_jobs (Starting w) = 2 * (n_workers + 1 - w) + 4 * n_jobs + 1"
| "pool_main_moves n_workers n_jobs (Feeding j) = 3 * (n_jobs + 1 - j) + n_jobs + 1"
| "pool_main_moves n_workers n_jobs ClosingJobs = n_jobs + 1"
| "pool_main_moves n_workers n_jobs (Collecting r) = n_jobs + 1 - r"
| "pool_main_moves n_workers n_jobs PoolReturned = 0"

definition pool_measure :: "nat \<Rightarrow> nat \<Rightarrow> pool_state \<Rightarrow> nat" where
  "pool_measure n_workers n_jobs s =
     pool_main_moves n_workers n_jobs (pool_main s) + 2 * length (buffer (jobs s))
     + sum_list (map worker_moves (workers s))"

fun jobs_closed_at :: "pool_main_pc \<Rightarrow> bool" where
  "jobs_closed_at (Collecting r) = True"
| "jobs_closed_at PoolReturned = True"
| "jobs_closed_at _ = False"

fun started :: "nat \<Rightarrow> pool_main_pc \<Rightarrow> nat" where
  "started n_workers (Starting w) = w - 1"
| "started n_workers _ = n_workers"

fun n_collected :: "nat \<Rightarrow> pool_main_pc \<Rightarrow> nat" where
  "n_collected n_jobs (Collecting r) = r - 1"
| "n_collected n_jobs PoolReturned = n_jobs"
| "n_collected n_jobs _ = 0"

fun pool_in_loop :: "nat \<Rightarrow> nat \<Rightarrow> pool_main_pc \<Rightarrow> bool" where
  "pool_in_loop n_workers n_jobs (Starting w) = (1 \<le> w \<and> w \<le> n_workers)"
| "pool_in_loop n_workers n_jobs (Feeding j) = (1 \<le> j \<and> j \<le> n_jobs)"
| "pool_in_loop n_workers n_jobs (Collecting r) = (1 \<le> r \<and> r \<le> n_jobs)"
| "pool_in_loop n_workers n_jobs _ = True"

text \<open>The results accounted for: those of the jobs not yet sent, of the jobs in the
  buffer of \<^verbatim>\<open>jobs\<close> and of the jobs in the hands of the workers, those in the buffer of
  \<^verbatim>\<open>results\<close>, and those collected.\<close>

definition accounted :: "nat \<Rightarrow> pool_state \<Rightarrow> int multiset" where
  "accounted n_jobs s =
     mset (map (\<lambda>j. j * 2) (unsent_jobs n_jobs (pool_main s)))
     + mset (map (\<lambda>j. j * 2) (buffer (jobs s)))
     + sum_list (map in_hand (workers s))
     + mset (buffer (results s)) + mset (collected s)"

definition pool_inv :: "nat \<Rightarrow> nat \<Rightarrow> pool_state \<Rightarrow> bool" where
  "pool_inv n_workers n_jobs s \<longleftrightarrow>
     pool_panic s = None
     \<and> capacity (jobs s) = 5 \<and> capacity (results s) = 5 \<and> \<not> chan_closed (results s)
     \<and> (chan_closed (jobs s) \<longleftrightarrow> jobs_closed_at (pool_main s))
     \<and> accounted n_jobs s = mset (expected n_jobs)
     \<and> length (workers s) = started n_workers (pool_main s)
     \<and> length (collected s) = n_collected n_jobs (pool_main s)
     \<and> pool_in_loop n_workers n_jobs (pool_main s)
     \<and> (WEnded \<in> set (workers s) \<longrightarrow> chan_closed (jobs s) \<and> buffer (jobs s) = [])"

text \<open>A run of the scenario of the specification, 3 workers and 10 jobs, and a run of the
  program as the source has it, 3 workers and 5 jobs. In the second, \<^verbatim>\<open>main\<close> returns
  while worker 1 is still in its loop.\<close>

definition spec_pool_run :: "pool_mover list" where
  "spec_pool_run =
     [PoolMain, PoolMain, PoolMain, PoolMain, PoolMain, PoolMain, Worker 1, PoolMain,
      Worker 0, PoolMain, PoolMain, Worker 2, Worker 2, PoolMain, Worker 0, PoolMain,
      Worker 2, Worker 2, PoolMain, Worker 2, PoolMain, Worker 0, PoolMain, Worker 2,
      PoolMain, Worker 0, PoolMain, Worker 0, Worker 1, Worker 2, Worker 0, Worker 1,
      PoolMain, Worker 1, Worker 1, PoolMain, PoolMain, Worker 0, Worker 1, PoolMain,
      Worker 2, Worker 2, PoolMain, PoolMain, PoolMain, Worker 1, PoolMain]"

definition source_pool_run :: "pool_mover list" where
  "source_pool_run =
     [PoolMain, PoolMain, PoolMain, PoolMain, PoolMain, PoolMain, Worker 2, Worker 1,
      Worker 0, Worker 0, Worker 2, Worker 1, PoolMain, Worker 2, PoolMain, Worker 0,
      Worker 2, PoolMain, Worker 2, Worker 1, PoolMain, PoolMain, PoolMain, PoolMain,
      Worker 0, PoolMain]"

chapter \<open>Properties\<close>

section \<open>GoBank: the file-backed banking program: properties\<close>

lemma nonneg_cases: "nonneg x \<longleftrightarrow> x = PosInf \<or> (\<exists>q. x = Finite q \<and> 0 \<le> q)"
  by (cases x) (simp_all add: nonneg_def)

lemma nonneg_add:
  assumes "keeps_sign rnd" and "nonneg a" and "b \<noteq> NaN" and "\<not> f64_le b (Finite 0)"
  shows "nonneg (f64_add rnd a b)"
proof (cases a)
  case (Finite x)
  show ?thesis
  proof (cases b)
    case (Finite y)
    with assms \<open>a = Finite x\<close> have "0 \<le> x + y" by (simp add: nonneg_def)
    with assms(1) have "nonneg (rnd (x + y))" by (simp add: keeps_sign_def)
    with Finite \<open>a = Finite x\<close> show ?thesis by simp
  qed (use assms Finite in \<open>simp_all add: nonneg_def\<close>)
qed (use assms in \<open>cases b; simp_all add: nonneg_def\<close>)+

lemma nonneg_sub:
  assumes "keeps_sign rnd" and "nonneg a" and "b \<noteq> NaN" and "\<not> f64_lt a b"
    and "\<not> (a = PosInf \<and> b = PosInf)"
  shows "nonneg (f64_sub rnd a b)"
proof (cases a)
  case (Finite x)
  show ?thesis
  proof (cases b)
    case (Finite y)
    with assms \<open>a = Finite x\<close> have "0 \<le> x + - y" by simp
    with assms(1) have "nonneg (rnd (x + - y))" by (simp add: keeps_sign_def)
    with Finite \<open>a = Finite x\<close> show ?thesis by (simp add: f64_sub_def)
  qed (use assms Finite in \<open>simp_all add: nonneg_def f64_sub_def\<close>)
qed (use assms in \<open>cases b; simp_all add: nonneg_def f64_sub_def\<close>)+

lemma not_le_zero: "amt \<noteq> NaN \<Longrightarrow> (\<not> f64_le amt (Finite 0)) = f64_lt (Finite 0) amt"
  by (cases amt) auto

lemma not_lt_swap: "a \<noteq> NaN \<Longrightarrow> b \<noteq> NaN \<Longrightarrow> (\<not> f64_lt a b) = f64_le b a"
  by (cases a; cases b) auto

lemma nonneg_not_NaN: "nonneg a \<Longrightarrow> a \<noteq> NaN"
  by (auto simp: nonneg_def)

lemma keeps_sign_exact: "keeps_sign exact"
  by (simp add: keeps_sign_def exact_def nonneg_def)

lemma withdraw_keeps_files:
  "menu_iteration rnd wr 3 amt s = Some s' \<Longrightarrow> files s' = files s"
  by (auto simp: menu_iteration_def split: if_splits)

lemma no_deposit_keeps_files:
  "choice \<noteq> 2 \<Longrightarrow> menu_iteration rnd wr choice amt s = Some s' \<Longrightarrow> files s' = files s"
  by (auto simp: menu_iteration_def split: if_splits)

lemma loop_without_deposit_keeps_files:
  "\<forall>i \<in> set inputs. fst i \<noteq> 2 \<Longrightarrow> files (menu_loop rnd s inputs) = files s"
proof (induction inputs arbitrary: s)
  case Nil
  then show ?case by simp
next
  case (Cons i inputs)
  obtain choice amt wr where i: "i = (choice, amt, wr)" by (cases i) auto
  with Cons.prems have c: "choice \<noteq> 2" and rest: "\<forall>i \<in> set inputs. fst i \<noteq> 2" by auto
  show ?case
  proof (cases "menu_iteration rnd wr choice amt s")
    case None
    with i show ?thesis by simp
  next
    case (Some s')
    with c have "files s' = files s" by (rule no_deposit_keeps_files)
    with Some i Cons.IH [OF rest, of s'] show ?thesis by simp
  qed
qed

lemma withdraw_subtracts:
  "\<not> f64_le amt (Finite 0) \<Longrightarrow> \<not> f64_lt (accBalance s) amt \<Longrightarrow>
   menu_iteration rnd wr 3 amt s = Some (s\<lparr>accBalance := f64_sub rnd (accBalance s) amt\<rparr>)"
  by (simp add: menu_iteration_def)

lemma deposit_writes:
  "\<not> f64_le amt (Finite 0) \<Longrightarrow>
   menu_iteration rnd wr 2 amt s =
     Some (s\<lparr>accBalance := f64_add rnd (accBalance s) amt,
              files := fst (os_WriteFile wr accountBalanceFile
                         (sprintf_2f (f64_add rnd (accBalance s) amt)) (files s))\<rparr>)"
  by (simp add: menu_iteration_def accountBalanceFile_def Let_def)

lemma deposit_written:
  "\<not> f64_le amt (Finite 0) \<Longrightarrow>
   menu_iteration rnd Write_succeeds 2 amt s =
     Some (s\<lparr>accBalance := f64_add rnd (accBalance s) amt,
              files := (files s)(accountBalanceFile \<mapsto>
                         sprintf_2f (f64_add rnd (accBalance s) amt))\<rparr>)"
  by (simp add: menu_iteration_def accountBalanceFile_def Let_def)

text \<open>
  C8. A withdrawal never changes the file system, so \<^verbatim>\<open>balance.txt\<close> keeps its
  contents; a successful one (an amount not \<^verbatim>\<open><= 0\<close> and not above the balance)
  subtracts the amount from the balance in memory; and a whole session without a deposit
  leaves the file system as it was. A deposit that goes through adds the amount and calls
  \<^verbatim>\<open>os.WriteFile\<close> on \<^verbatim>\<open>balance.txt\<close> with the new balance, formatted with two
  decimals; when that write succeeds, the file holds exactly that text.
\<close>

theorem withdraw_not_persisted:
  "(\<forall>s'. menu_iteration rnd wr 3 amt s = Some s' \<longrightarrow> files s' = files s)
   \<and> (\<not> f64_le amt (Finite 0) \<and> \<not> f64_lt (accBalance s) amt \<longrightarrow>
        menu_iteration rnd wr 3 amt s = Some (s\<lparr>accBalance := f64_sub rnd (accBalance s) amt\<rparr>))
   \<and> ((\<forall>i \<in> set inputs. fst i \<noteq> 2) \<longrightarrow> files (menu_loop rnd s inputs) = files s)
   \<and> (\<not> f64_le amt (Finite 0) \<longrightarrow>
        menu_iteration rnd wr 2 amt s =
          Some (s\<lparr>accBalance := f64_add rnd (accBalance s) amt,
                   files := fst (os_WriteFile wr accountBalanceFile
                              (sprintf_2f (f64_add rnd (accBalance s) amt)) (files s))\<rparr>))
   \<and> (\<not> f64_le amt (Finite 0) \<longrightarrow>
        menu_iteration rnd Write_succeeds 2 amt s =
          Some (s\<lparr>accBalance := f64_add rnd (accBalance s) amt,
                   files := (files s)(accountBalanceFile \<mapsto>
                              sprintf_2f (f64_add rnd (accBalance s) amt))\<rparr>))"
proof (intro conjI impI allI)
  fix s' assume "menu_iteration rnd wr 3 amt s = Some s'"
  then show "files s' = files s" by (rule withdraw_keeps_files)
next
  assume "\<not> f64_le amt (Finite 0) \<and> \<not> f64_lt (accBalance s) amt"
  then show "menu_iteration rnd wr 3 amt s
      = Some (s\<lparr>accBalance := f64_sub rnd (accBalance s) amt\<rparr>)"
    by (simp add: withdraw_subtracts)
next
  assume "\<forall>i \<in> set inputs. fst i \<noteq> 2"
  then show "files (menu_loop rnd s inputs) = files s"
    by (rule loop_without_deposit_keeps_files)
next
  assume "\<not> f64_le amt (Finite 0)"
  then show "menu_iteration rnd wr 2 amt s =
      Some (s\<lparr>accBalance := f64_add rnd (accBalance s) amt,
               files := fst (os_WriteFile wr accountBalanceFile
                          (sprintf_2f (f64_add rnd (accBalance s) amt)) (files s))\<rparr>)"
    by (rule deposit_writes)
next
  assume "\<not> f64_le amt (Finite 0)"
  then show "menu_iteration rnd Write_succeeds 2 amt s =
      Some (s\<lparr>accBalance := f64_add rnd (accBalance s) amt,
               files := (files s)(accountBalanceFile \<mapsto>
                          sprintf_2f (f64_add rnd (accBalance s) amt))\<rparr>)"
    by (rule deposit_written)
qed

lemma digits_small: "n < 10 \<Longrightarrow> digits n = [''0123456789'' ! n]"
  by (simp add: digits.simps)

lemma digits_large:
  "\<not> n < 10 \<Longrightarrow> digits n = digits (n div 10) @ [''0123456789'' ! (n mod 10)]"
  by (subst digits.simps) simp

lemma sprintf_2f_1050_50: "sprintf_2f (Finite (2101 / 2)) = ''1050.50''"
  by (simp add: round_half_even_def digits_small digits_large)

theorem withdraw_not_persisted_witness:
  "map_option accBalance (menu_iteration exact Write_succeeds 3 (Finite 50)
     \<lparr>accBalance = Finite 1000, files = [''balance.txt'' \<mapsto> ''1000.00'']\<rparr>)
   = Some (Finite 950)
   \<and> map_option (\<lambda>s. files s ''balance.txt'') (menu_iteration exact Write_succeeds 3 (Finite 50)
     \<lparr>accBalance = Finite 1000, files = [''balance.txt'' \<mapsto> ''1000.00'']\<rparr>)
   = Some (Some ''1000.00'')
   \<and> files (menu_loop exact \<lparr>accBalance = Finite 1000, files = [''balance.txt'' \<mapsto> ''1000.00'']\<rparr>
        [(3, Finite 50, Write_succeeds), (1, Finite 0, Write_succeeds)]) ''balance.txt''
   = Some ''1000.00''
   \<and> map_option accBalance (menu_iteration exact Write_succeeds 2 (Finite (101 / 2))
     \<lparr>accBalance = Finite 1000, files = [''balance.txt'' \<mapsto> ''1000.00'']\<rparr>)
   = Some (Finite (2101 / 2))
   \<and> map_option (\<lambda>s. files s ''balance.txt'') (menu_iteration exact Write_succeeds 2 (Finite (101 / 2))
     \<lparr>accBalance = Finite 1000, files = [''balance.txt'' \<mapsto> ''1000.00'']\<rparr>)
   = Some (Some ''1050.50'')
   \<and> map_option (\<lambda>s. files s ''balance.txt'')
     (menu_iteration exact (Write_fails (Some '''')) 2 (Finite (101 / 2))
       \<lparr>accBalance = Finite 1000, files = [''balance.txt'' \<mapsto> ''1000.00'']\<rparr>)
   = Some (Some '''')"
  using withdraw_not_persisted
    [of exact Write_succeeds "Finite 50"
        "\<lparr>accBalance = Finite 1000, files = [''balance.txt'' \<mapsto> ''1000.00'']\<rparr>"
        "[(3, Finite 50, Write_succeeds), (1, Finite 0, Write_succeeds)]"]
    withdraw_not_persisted
    [of exact "Write_fails (Some '''')" "Finite (101 / 2)"
        "\<lparr>accBalance = Finite 1000, files = [''balance.txt'' \<mapsto> ''1000.00'']\<rparr>" "[]"]
  by (simp add: menu_iteration_def f64_sub_def exact_def accountBalanceFile_def
        sprintf_2f_1050_50 del: sprintf_2f.simps)

lemma nonneg_menu_iteration:
  assumes "keeps_sign rnd" and "nonneg (accBalance s)" and "amt \<noteq> NaN"
    and "\<not> (choice = 3 \<and> amt = PosInf \<and> accBalance s = PosInf)"
    and "menu_iteration rnd wr choice amt s = Some s'"
  shows "nonneg (accBalance s')"
proof -
  consider "choice = 1" | "choice = 2" | "choice = 3" | "choice \<noteq> 1 \<and> choice \<noteq> 2 \<and> choice \<noteq> 3"
    by blast
  then show ?thesis
  proof cases
    case 1
    with assms show ?thesis by (simp add: menu_iteration_def)
  next
    case 2
    with assms show ?thesis
      by (auto simp: menu_iteration_def Let_def nonneg_add split: if_splits)
  next
    case 3
    with assms show ?thesis
      by (auto simp: menu_iteration_def nonneg_sub split: if_splits)
  next
    case 4
    with assms show ?thesis by (simp add: menu_iteration_def)
  qed
qed

lemma deposit_guard:
  assumes "amt \<noteq> NaN"
  shows "menu_iteration rnd wr 2 amt s =
     (if f64_lt (Finite 0) amt
      then Some (s\<lparr>accBalance := f64_add rnd (accBalance s) amt,
                   files := fst (os_WriteFile wr accountBalanceFile
                              (sprintf_2f (f64_add rnd (accBalance s) amt)) (files s))\<rparr>)
      else Some s)"
  using not_le_zero [OF assms]
  by (cases "f64_le amt (Finite 0)")
     (simp_all add: menu_iteration_def Let_def accountBalanceFile_def)

lemma withdraw_guard:
  assumes "amt \<noteq> NaN" and "accBalance s \<noteq> NaN"
  shows "menu_iteration rnd wr 3 amt s =
     (if f64_lt (Finite 0) amt \<and> f64_le amt (accBalance s)
      then Some (s\<lparr>accBalance := f64_sub rnd (accBalance s) amt\<rparr>)
      else Some s)"
  using not_le_zero [OF assms(1)] not_lt_swap [OF assms(2,1)]
  by (cases "f64_le amt (Finite 0)"; cases "f64_lt (accBalance s) amt")
     (simp_all add: menu_iteration_def)

lemma gobank_once_guard:
  assumes "amt \<noteq> NaN"
  shows "gobank_once rnd choice amt =
     (if choice = 2 \<and> f64_lt (Finite 0) amt then f64_add rnd (Finite 1000) amt
      else if choice = 3 \<and> f64_lt (Finite 0) amt \<and> f64_le amt (Finite 1000)
        then f64_sub rnd (Finite 1000) amt
      else Finite 1000)"
  using not_le_zero [OF assms] not_lt_swap [of "Finite 1000" amt] assms
  by (cases "f64_le amt (Finite 0)"; cases "f64_lt (Finite 1000) amt")
     (simp_all add: gobank_once_def Let_def)

lemma nonneg_gobank_once:
  assumes "keeps_sign rnd" and "amt \<noteq> NaN"
  shows "nonneg (gobank_once rnd choice amt)"
proof -
  have start: "nonneg (Finite 1000)" by (simp add: nonneg_def)
  show ?thesis
    using assms start
    by (auto simp: gobank_once_def Let_def intro!: nonneg_add nonneg_sub)
qed

text \<open>
  C9, as the program has it. Let the amount entered not be NaN, and not be +Inf withdrawn
  from a balance of +Inf, and let the rounding keep the sign (as IEEE-754's does). Then one
  pass of the menu loop keeps a balance that is \<^verbatim>\<open>>= 0\<close> that way: a deposit is applied
  when \<^verbatim>\<open>depositAmt > 0\<close> and leaves the state unchanged otherwise; a withdrawal is
  applied when \<^verbatim>\<open>0 < withdrawAmt <= accBalance\<close> and leaves the state unchanged
  otherwise; the balance check leaves the state unchanged. The first version of the
  program, from its balance of 1000.0, does the same and ends with a balance \<^verbatim>\<open>>= 0\<close>.
\<close>

theorem balance_stays_nonneg:
  assumes "keeps_sign rnd" and "nonneg (accBalance s)" and "amt \<noteq> NaN"
    and "\<not> (choice = 3 \<and> amt = PosInf \<and> accBalance s = PosInf)"
  shows "(\<forall>s'. menu_iteration rnd wr choice amt s = Some s' \<longrightarrow> nonneg (accBalance s'))
   \<and> menu_iteration rnd wr 1 amt s = Some s
   \<and> menu_iteration rnd wr 2 amt s =
       (if f64_lt (Finite 0) amt
        then Some (s\<lparr>accBalance := f64_add rnd (accBalance s) amt,
                     files := fst (os_WriteFile wr accountBalanceFile
                                (sprintf_2f (f64_add rnd (accBalance s) amt)) (files s))\<rparr>)
        else Some s)
   \<and> menu_iteration rnd wr 3 amt s =
       (if f64_lt (Finite 0) amt \<and> f64_le amt (accBalance s)
        then Some (s\<lparr>accBalance := f64_sub rnd (accBalance s) amt\<rparr>)
        else Some s)
   \<and> nonneg (gobank_once rnd choice amt)
   \<and> gobank_once rnd choice amt =
       (if choice = 2 \<and> f64_lt (Finite 0) amt then f64_add rnd (Finite 1000) amt
        else if choice = 3 \<and> f64_lt (Finite 0) amt \<and> f64_le amt (Finite 1000)
          then f64_sub rnd (Finite 1000) amt
        else Finite 1000)"
proof (intro conjI allI impI)
  fix s' assume "menu_iteration rnd wr choice amt s = Some s'"
  with assms show "nonneg (accBalance s')" by (rule nonneg_menu_iteration)
next
  show "menu_iteration rnd wr 1 amt s = Some s" by (simp add: menu_iteration_def)
next
  show "menu_iteration rnd wr 2 amt s =
       (if f64_lt (Finite 0) amt
        then Some (s\<lparr>accBalance := f64_add rnd (accBalance s) amt,
                     files := fst (os_WriteFile wr accountBalanceFile
                                (sprintf_2f (f64_add rnd (accBalance s) amt)) (files s))\<rparr>)
        else Some s)"
    using assms(3) by (rule deposit_guard)
next
  from assms(2) have "accBalance s \<noteq> NaN" by (rule nonneg_not_NaN)
  with assms(3) show "menu_iteration rnd wr 3 amt s =
       (if f64_lt (Finite 0) amt \<and> f64_le amt (accBalance s)
        then Some (s\<lparr>accBalance := f64_sub rnd (accBalance s) amt\<rparr>)
        else Some s)"
    by (rule withdraw_guard)
next
  from assms(1,3) show "nonneg (gobank_once rnd choice amt)" by (rule nonneg_gobank_once)
next
  from assms(3) show "gobank_once rnd choice amt =
       (if choice = 2 \<and> f64_lt (Finite 0) amt then f64_add rnd (Finite 1000) amt
        else if choice = 3 \<and> f64_lt (Finite 0) amt \<and> f64_le amt (Finite 1000)
          then f64_sub rnd (Finite 1000) amt
        else Finite 1000)"
    by (rule gobank_once_guard)
qed

theorem balance_stays_nonneg_witness:
  "keeps_sign exact \<and> nonneg (Finite 1000) \<and> Finite 300 \<noteq> NaN
   \<and> map_option accBalance (menu_iteration exact Write_succeeds 3 (Finite 300)
       \<lparr>accBalance = Finite 1000, files = [''balance.txt'' \<mapsto> ''1000.00'']\<rparr>)
     = Some (Finite 700)
   \<and> nonneg (Finite 700) \<and> gobank_once exact 3 (Finite 300) = Finite 700"
  using balance_stays_nonneg
    [of exact "\<lparr>accBalance = Finite 1000, files = [''balance.txt'' \<mapsto> ''1000.00'']\<rparr>"
        "Finite 300" 3 Write_succeeds]
    keeps_sign_exact
  by (simp add: nonneg_def f64_sub_def exact_def)

text \<open>
  The claim as it was stated fails: NaN is not \<^verbatim>\<open><= 0\<close>, so a deposit of NaN goes
  through (although it is not \<^verbatim>\<open>> 0\<close> either) and the balance is NaN, which is not
  \<^verbatim>\<open>>= 0\<close>. Here the balance is 1000 and \<^verbatim>\<open>balance.txt\<close> holds it.
\<close>

theorem balance_nonneg_counterexample:
  "nonneg (accBalance \<lparr>accBalance = Finite 1000, files = [''balance.txt'' \<mapsto> ''1000.00'']\<rparr>)
   \<and> \<not> f64_lt (Finite 0) NaN
   \<and> map_option accBalance (menu_iteration exact Write_succeeds 2 NaN
       \<lparr>accBalance = Finite 1000, files = [''balance.txt'' \<mapsto> ''1000.00'']\<rparr>) = Some NaN
   \<and> map_option (\<lambda>s. files s ''balance.txt'') (menu_iteration exact Write_succeeds 2 NaN
       \<lparr>accBalance = Finite 1000, files = [''balance.txt'' \<mapsto> ''1000.00'']\<rparr>) = Some (Some ''NaN'')
   \<and> \<not> nonneg NaN
   \<and> gobank_once exact 2 NaN = NaN"
  by (simp add: nonneg_def menu_iteration_def gobank_once_def)

lemma readBalance_error_iff:
  "snd (readBalanceFromFile parseFloat fs) \<noteq> None \<longleftrightarrow>
   fs accountBalanceFile = None
   \<or> (\<exists>d. fs accountBalanceFile = Some d \<and> parseFloat d = None)"
  by (simp add: readBalanceFromFile_def split: option.split)

lemma readBalance_error_value:
  "snd (readBalanceFromFile parseFloat fs) \<noteq> None \<Longrightarrow>
   fst (readBalanceFromFile parseFloat fs) = Finite 1000"
  by (simp add: readBalanceFromFile_def split: option.split_asm)

lemma readBalance_success:
  "fs accountBalanceFile = Some d \<Longrightarrow> parseFloat d = Some b \<Longrightarrow>
   readBalanceFromFile parseFloat fs = (b, None)"
  by (simp add: readBalanceFromFile_def)

lemma gobank_main_panics_iff:
  "gobank_main rnd parseFloat fs inputs = Panicked \<longleftrightarrow>
   snd (readBalanceFromFile parseFloat fs) \<noteq> None"
  by (simp add: gobank_main_def split: prod.split option.split)

text \<open>
  C10. \<^verbatim>\<open>readBalanceFromFile\<close> returns an error exactly when \<^verbatim>\<open>balance.txt\<close>
  cannot be read or its contents do not parse; the balance returned with an error is
  1000.00; when the file is read and parses, the parsed balance is returned with no error;
  and \<^verbatim>\<open>main\<close> panics exactly when the error is not nil.
\<close>

theorem readBalanceFromFile_errors:
  "(snd (readBalanceFromFile parseFloat fs) \<noteq> None \<longleftrightarrow>
      fs accountBalanceFile = None
      \<or> (\<exists>d. fs accountBalanceFile = Some d \<and> parseFloat d = None))
   \<and> (snd (readBalanceFromFile parseFloat fs) \<noteq> None \<longrightarrow>
        fst (readBalanceFromFile parseFloat fs) = Finite 1000)
   \<and> (\<forall>d b. fs accountBalanceFile = Some d \<and> parseFloat d = Some b \<longrightarrow>
        readBalanceFromFile parseFloat fs = (b, None))
   \<and> (gobank_main rnd parseFloat fs inputs = Panicked \<longleftrightarrow>
        snd (readBalanceFromFile parseFloat fs) \<noteq> None)"
  using readBalance_error_iff [of parseFloat fs] readBalance_error_value [of parseFloat fs]
    readBalance_success [of fs _ parseFloat] gobank_main_panics_iff [of rnd parseFloat fs inputs]
  by blast

theorem readBalanceFromFile_errors_witness:
  "readBalanceFromFile parse_two Map.empty = (Finite 1000, Some File_doesnt_exist)
   \<and> readBalanceFromFile parse_two [''balance.txt'' \<mapsto> ''hello'']
       = (Finite 1000, Some Failed_to_parse_stored_balance)
   \<and> readBalanceFromFile parse_two [''balance.txt'' \<mapsto> ''250.50''] = (Finite (501 / 2), None)
   \<and> gobank_main exact parse_two [''balance.txt'' \<mapsto> ''hello''] [] = Panicked
   \<and> gobank_main exact parse_two [''balance.txt'' \<mapsto> ''250.50''] []
       = Exited \<lparr>accBalance = Finite (501 / 2), files = [''balance.txt'' \<mapsto> ''250.50'']\<rparr>"
  using readBalanceFromFile_errors [of parse_two "[''balance.txt'' \<mapsto> ''hello'']" exact "[]"]
    readBalanceFromFile_errors [of parse_two "[''balance.txt'' \<mapsto> ''250.50'']" exact "[]"]
  by (simp add: readBalanceFromFile_def gobank_main_def accountBalanceFile_def parse_two_def)

section \<open>Concurrency primitives: properties\<close>

lemma exec_invariant:
  assumes step: "\<And>e s s'. I s \<Longrightarrow> step e s = Some s' \<Longrightarrow> I s'"
    and "I s" and "exec step es s = Some t"
  shows "I t"
  using assms(2,3)
proof (induction es arbitrary: s)
  case Nil
  then show ?case by simp
next
  case (Cons e es)
  then obtain s' where s': "step e s = Some s'" and rest: "exec step es s' = Some t"
    by (auto split: option.splits)
  from step [OF Cons.prems(1) s'] rest show ?case by (rule Cons.IH)
qed

lemma exec_bounded:
  assumes step: "\<And>e s s'. I s \<Longrightarrow> step e s = Some s' \<Longrightarrow> I s' \<and> m s' < (m s :: nat)"
    and "I s" and "exec step es s = Some t"
  shows "length es + m t \<le> m s"
  using assms(2,3)
proof (induction es arbitrary: s)
  case Nil
  then show ?case by simp
next
  case (Cons e es)
  then obtain s' where s': "step e s = Some s'" and rest: "exec step es s' = Some t"
    by (auto split: option.splits)
  from step [OF Cons.prems(1) s'] have "I s'" and less: "m s' < m s" by simp_all
  from Cons.IH [OF \<open>I s'\<close> rest] less show ?case by simp
qed

lemma closed_chan_after: "chan_closed ch \<Longrightarrow> chan_closed (chan_after op ch)"
  by (cases op)
     (auto simp: send_def receive_def close_def split: list.splits option.splits if_splits)

lemma closed_chan_after_all: "chan_closed ch \<Longrightarrow> chan_closed (chan_after_all ops ch)"
  by (induction ops arbitrary: ch) (simp_all add: closed_chan_after)

lemma send_closed: "chan_closed ch \<Longrightarrow> send v w ch = Faults ClosedChannelFault"
  by (simp add: send_def)

lemma close_closes: "close ch = Returns ch' \<Longrightarrow> chan_closed ch'"
  by (auto simp: close_def split: if_splits)

text \<open>
  C2. A send on a channel whose closed flag is set fails with ClosedChannelFault, for every
  value and whether or not a receiver waits; the flag stays set whatever operations follow,
  so this holds at every later send, and after a \<^verbatim>\<open>close\<close> that returned.
\<close>

theorem send_on_closed_faults:
  "(chan_closed ch \<longrightarrow> send v w (chan_after_all ops ch) = Faults ClosedChannelFault)
   \<and> (\<forall>ch'. close ch = Returns ch' \<longrightarrow>
         send v w (chan_after_all ops ch') = Faults ClosedChannelFault)"
proof (intro conjI impI allI)
  assume "chan_closed ch"
  then show "send v w (chan_after_all ops ch) = Faults ClosedChannelFault"
    by (simp add: send_closed closed_chan_after_all)
next
  fix ch' :: "'a channel"
  assume "close ch = Returns ch'"
  then have "chan_closed ch'" by (rule close_closes)
  then show "send v w (chan_after_all ops ch') = Faults ClosedChannelFault"
    by (simp add: send_closed closed_chan_after_all)
qed

lemma drained_chan_after:
  "chan_closed ch \<Longrightarrow> buffer ch = [] \<Longrightarrow> chan_after op ch = ch"
  by (cases op) (auto simp: send_def receive_def close_def)

lemma drained_chan_after_all:
  "chan_closed ch \<Longrightarrow> buffer ch = [] \<Longrightarrow> chan_after_all ops ch = ch"
  by (induction ops) (simp_all add: drained_chan_after)

lemma receive_drained:
  "chan_closed ch \<Longrightarrow> buffer ch = [] \<Longrightarrow> receive w ch = Returns ((0, False), ch, False)"
  by (simp add: receive_def)

lemma close_empty:
  "close ch = Returns ch' \<Longrightarrow> buffer ch = [] \<Longrightarrow> chan_closed ch' \<and> buffer ch' = []"
  by (auto simp: close_def split: if_splits)

lemma blocked_receive_empty: "receive w ch = Blocks \<Longrightarrow> buffer ch = []"
  by (cases "buffer ch") (simp_all add: receive_def)

lemma receive_buffered:
  "buffer ch = v # rest \<Longrightarrow> receive w ch = Returns ((v, True), ch\<lparr>buffer := rest\<rparr>, False)"
  by (simp add: receive_def)

text \<open>
  C3. On a channel that is closed and whose buffer is empty, a receive returns at once with
  the zero value and \<^verbatim>\<open>open = false\<close> and leaves the channel as it is, whatever
  operations came in between and whether or not a sender waits; so does every receive
  after the close of a channel with an empty buffer, and so does a receive that was
  blocked before the close. A closed channel with values left in its buffer hands out the
  first of them.
\<close>

theorem receive_after_close:
  "(chan_closed ch \<and> buffer ch = [] \<longrightarrow>
      receive w (chan_after_all ops ch) = Returns ((0, False), ch, False))
   \<and> (\<forall>ch'. close ch = Returns ch' \<and> buffer ch = [] \<longrightarrow>
         receive w (chan_after_all ops ch') = Returns ((0, False), ch', False))
   \<and> (\<forall>ch'. receive None ch = Blocks \<and> close ch = Returns ch' \<longrightarrow>
         receive w (chan_after_all ops ch') = Returns ((0, False), ch', False))
   \<and> (\<forall>v rest. chan_closed ch \<and> buffer ch = v # rest \<longrightarrow>
         receive w ch = Returns ((v, True), ch\<lparr>buffer := rest\<rparr>, False))"
proof (intro conjI impI allI)
  assume "chan_closed ch \<and> buffer ch = []"
  then show "receive w (chan_after_all ops ch) = Returns ((0, False), ch, False)"
    by (simp add: receive_drained drained_chan_after_all)
next
  fix ch' :: "'a channel"
  assume "close ch = Returns ch' \<and> buffer ch = []"
  then have "chan_closed ch' \<and> buffer ch' = []" using close_empty [of ch ch'] by simp
  then show "receive w (chan_after_all ops ch') = Returns ((0, False), ch', False)"
    by (simp add: receive_drained drained_chan_after_all)
next
  fix ch' :: "'a channel"
  assume blocked: "receive None ch = Blocks \<and> close ch = Returns ch'"
  then have "buffer ch = []" using blocked_receive_empty [of None ch] by simp
  with blocked have "chan_closed ch' \<and> buffer ch' = []" using close_empty [of ch ch'] by simp
  then show "receive w (chan_after_all ops ch') = Returns ((0, False), ch', False)"
    by (simp add: receive_drained drained_chan_after_all)
next
  fix v :: 'a and rest
  assume "chan_closed ch \<and> buffer ch = v # rest"
  then show "receive w ch = Returns ((v, True), ch\<lparr>buffer := rest\<rparr>, False)"
    by (simp add: receive_buffered)
qed

theorem send_on_closed_faults_witness:
  "chan_closed \<lparr>capacity = 2, buffer = [5 :: int], chan_closed = True\<rparr>
   \<and> send 7 True (chan_after_all [Receive None, Send 3 False, Close]
                     \<lparr>capacity = 2, buffer = [5 :: int], chan_closed = True\<rparr>)
       = Faults ClosedChannelFault
   \<and> close (make_chan 2 :: int channel) = Returns \<lparr>capacity = 2, buffer = [], chan_closed = True\<rparr>
   \<and> send 7 False (chan_after_all [] \<lparr>capacity = 2, buffer = [] :: int list, chan_closed = True\<rparr>)
       = Faults ClosedChannelFault"
  using send_on_closed_faults
    [of "\<lparr>capacity = 2, buffer = [5 :: int], chan_closed = True\<rparr>" 7 True
        "[Receive None, Send 3 False, Close]"]
    send_on_closed_faults [of "make_chan 2 :: int channel" 7 False "[]"]
  by (simp add: make_chan_def close_def)

theorem receive_after_close_witness:
  "receive None (make_chan 0 :: int channel) = Blocks
   \<and> close (make_chan 0 :: int channel) = Returns \<lparr>capacity = 0, buffer = [], chan_closed = True\<rparr>
   \<and> receive None (chan_after_all [Receive None, Receive (Some 4)]
                      \<lparr>capacity = 0, buffer = [] :: int list, chan_closed = True\<rparr>)
       = Returns ((0, False), \<lparr>capacity = 0, buffer = [], chan_closed = True\<rparr>, False)
   \<and> receive None \<lparr>capacity = 2, buffer = [8 :: int], chan_closed = True\<rparr>
       = Returns ((8, True), \<lparr>capacity = 2, buffer = [], chan_closed = True\<rparr>, False)"
  using receive_after_close
    [of "make_chan 0 :: int channel" None "[Receive None, Receive (Some 4)]"]
    receive_after_close [of "\<lparr>capacity = 2, buffer = [8 :: int], chan_closed = True\<rparr>" None "[]"]
  by (simp add: make_chan_def close_def receive_def)

lemma select_none_ready:
  assumes "\<forall>c \<in> set cands. \<not> ready c"
  shows "select pick cands True = RunDefault"
proof -
  have "filter (\<lambda>i. ready (cands ! i)) [0..<length cands] = []"
    using assms by (simp add: filter_empty_conv)
  then show ?thesis by (simp add: select_def)
qed

lemma select_some_ready:
  assumes "\<exists>c \<in> set cands. ready c"
  shows "\<exists>i < length cands. select pick cands d = Fired i \<and> ready (cands ! i)"
proof -
  define rs where "rs = filter (\<lambda>i. ready (cands ! i)) [0..<length cands]"
  from assms obtain k where "k < length cands" and "ready (cands ! k)"
    by (auto simp: in_set_conv_nth)
  then have "k \<in> set rs" by (simp add: rs_def)
  then have ne: "rs \<noteq> []" by auto
  then have "pick mod length rs < length rs" by simp
  then have "rs ! (pick mod length rs) \<in> set rs" by (rule nth_mem)
  then have "rs ! (pick mod length rs) < length cands \<and> ready (cands ! (rs ! (pick mod length rs)))"
    by (simp add: rs_def)
  moreover have "select pick cands d = Fired (rs ! (pick mod length rs))"
    using ne by (simp add: select_def rs_def Let_def)
  ultimately show ?thesis by blast
qed

lemma select_never_blocks: "select pick cands True \<noteq> SelectBlocks"
  by (simp add: select_def Let_def)

lemma select_run_none_ready:
  assumes "\<forall>c \<in> set cands. \<not> ready c"
  shows "select_run pick cands True = RanDefault"
  using select_none_ready [OF assms, of pick] by (simp add: select_run_def)

lemma select_run_some_ready:
  assumes "\<exists>c \<in> set cands. ready c"
  shows "\<exists>i < length cands. ready (cands ! i) \<and> select pick cands True = Fired i
    \<and> select_run pick cands True = Ran i (perform (cands ! i))"
proof -
  from select_some_ready [OF assms, of pick True]
  obtain i where "i < length cands" and "select pick cands True = Fired i"
    and "ready (cands ! i)" by blast
  moreover from this have "select_run pick cands True = Ran i (perform (cands ! i))"
    by (simp add: select_run_def)
  ultimately show ?thesis by blast
qed

lemma ready_receive:
  "ready (RecvCase ch w) \<longleftrightarrow> (\<exists>msg ok ch' h. receive w ch = Returns ((msg, ok), ch', h))"
  by (cases "buffer ch"; cases w) (auto simp: receive_def)

lemma ready_send:
  assumes "ready (SendCase ch v w)" and "w \<longrightarrow> buffer ch = []"
  shows "send v w ch \<noteq> Blocks"
  using assms by (cases "capacity ch = 0") (auto simp: send_def)

lemma select_example_default:
  assumes "\<not> ready (RecvCase ch1 w1)" and "\<not> ready (RecvCase ch2 w2)"
  shows "select_example pick ch1 w1 ch2 w2 = Some (No_message_received, ch1, ch2, False)"
  using assms select_run_none_ready [of "[RecvCase ch1 w1, RecvCase ch2 w2]" pick]
  by (simp add: select_example_def)

lemma select_example_fired:
  assumes "select pick [RecvCase ch1 w1, RecvCase ch2 w2] True = Fired i"
  shows "(i = 0 \<longrightarrow> (\<forall>msg ok ch' h. receive w1 ch1 = Returns ((msg, ok), ch', h) \<longrightarrow>
            select_example pick ch1 w1 ch2 w2 = Some (Received msg, ch', ch2, h)))
    \<and> (i = 1 \<longrightarrow> (\<forall>msg ok ch' h. receive w2 ch2 = Returns ((msg, ok), ch', h) \<longrightarrow>
            select_example pick ch1 w1 ch2 w2 = Some (Received msg, ch1, ch', h)))"
  using assms by (simp add: select_example_def select_run_def)

lemma select_example_first:
  assumes "ready (RecvCase ch1 w1)" and "\<not> ready (RecvCase ch2 w2)"
  shows "\<exists>msg ok ch' h. receive w1 ch1 = Returns ((msg, ok), ch', h)
    \<and> select_example pick ch1 w1 ch2 w2 = Some (Received msg, ch', ch2, h)"
proof -
  let ?cands = "[RecvCase ch1 w1, RecvCase ch2 w2]"
  from assms(1) have "\<exists>c \<in> set ?cands. ready c" by auto
  from select_some_ready [OF this, of pick True]
  obtain i where i: "i < 2" and fired: "select pick ?cands True = Fired i"
    and rdy: "ready (?cands ! i)"
    by auto
  have "i = 0"
  proof (rule ccontr)
    assume "i \<noteq> 0"
    with i have "i = 1" by simp
    with rdy assms(2) show False by simp
  qed
  from assms(1) obtain msg ok ch' h where r: "receive w1 ch1 = Returns ((msg, ok), ch', h)"
    using ready_receive [of ch1 w1] by auto
  with select_example_fired [OF fired] \<open>i = 0\<close>
  have "select_example pick ch1 w1 ch2 w2 = Some (Received msg, ch', ch2, h)" by simp
  with r show ?thesis by blast
qed

lemma select_example_second:
  assumes "\<not> ready (RecvCase ch1 w1)" and "ready (RecvCase ch2 w2)"
  shows "\<exists>msg ok ch' h. receive w2 ch2 = Returns ((msg, ok), ch', h)
    \<and> select_example pick ch1 w1 ch2 w2 = Some (Received msg, ch1, ch', h)"
proof -
  let ?cands = "[RecvCase ch1 w1, RecvCase ch2 w2]"
  from assms(2) have "\<exists>c \<in> set ?cands. ready c" by auto
  from select_some_ready [OF this, of pick True]
  obtain i where i: "i < 2" and fired: "select pick ?cands True = Fired i"
    and rdy: "ready (?cands ! i)"
    by auto
  have "i = 1"
  proof (rule ccontr)
    assume "i \<noteq> 1"
    with i have "i = 0" by simp
    with rdy assms(1) show False by simp
  qed
  from assms(2) obtain msg ok ch' h where r: "receive w2 ch2 = Returns ((msg, ok), ch', h)"
    using ready_receive [of ch2 w2] by auto
  with select_example_fired [OF fired] \<open>i = 1\<close>
  have "select_example pick ch1 w1 ch2 w2 = Some (Received msg, ch1, ch', h)" by simp
  with r show ?thesis by blast
qed

lemma select_example_both:
  assumes "ready (RecvCase ch1 w1)" and "ready (RecvCase ch2 w2)"
  shows "(\<exists>msg ok ch' h. receive w1 ch1 = Returns ((msg, ok), ch', h)
      \<and> select_example pick ch1 w1 ch2 w2 = Some (Received msg, ch', ch2, h))
    \<or> (\<exists>msg ok ch' h. receive w2 ch2 = Returns ((msg, ok), ch', h)
      \<and> select_example pick ch1 w1 ch2 w2 = Some (Received msg, ch1, ch', h))"
proof -
  let ?cands = "[RecvCase ch1 w1, RecvCase ch2 w2]"
  from assms(1) have "\<exists>c \<in> set ?cands. ready c" by auto
  from select_some_ready [OF this, of pick True]
  obtain i where i: "i < 2" and fired: "select pick ?cands True = Fired i" by auto
  from assms(1) obtain m1 o1 c1 h1 where r1: "receive w1 ch1 = Returns ((m1, o1), c1, h1)"
    using ready_receive [of ch1 w1] by auto
  from assms(2) obtain m2 o2 c2 h2 where r2: "receive w2 ch2 = Returns ((m2, o2), c2, h2)"
    using ready_receive [of ch2 w2] by auto
  show ?thesis
  proof (cases "i = 0")
    case True
    with select_example_fired [OF fired] r1
    have "select_example pick ch1 w1 ch2 w2 = Some (Received m1, c1, ch2, h1)" by simp
    with r1 show ?thesis by blast
  next
    case False
    with i have "i = 1" by simp
    with select_example_fired [OF fired] r2
    have "select_example pick ch1 w1 ch2 w2 = Some (Received m2, ch1, c2, h2)" by simp
    with r2 show ?thesis by blast
  qed
qed

text \<open>
  C7. A select with a default branch: if no candidate is ready the default runs and no
  operation is performed; if some candidate is ready, a ready one fires and what is
  executed is the operation of exactly that candidate (so the default does not run); in
  neither case does the select block. A receive case is ready exactly when its receive
  returns, and a ready send case does not block (it sends, or faults on a closed channel),
  a receiver waiting only on an empty buffer. In the \<^verbatim>\<open>select\<close> of \<^verbatim>\<open>channels.md\<close>, with or without waiting senders:
  with neither channel ready, "No message received" is printed and the channels are
  untouched; with only \<^verbatim>\<open>ch1\<close> ready, the result is that of the receive from
  \<^verbatim>\<open>ch1\<close> and \<^verbatim>\<open>ch2\<close> is untouched; with only \<^verbatim>\<open>ch2\<close> ready, the other way
  round; with both ready, it is one of the two.
\<close>

theorem select_with_default:
  "((\<forall>c \<in> set cands. \<not> ready c) \<longrightarrow>
      select pick cands True = RunDefault \<and> select_run pick cands True = RanDefault)
   \<and> ((\<exists>c \<in> set cands. ready c) \<longrightarrow>
        (\<exists>i < length cands. ready (cands ! i) \<and> select pick cands True = Fired i
           \<and> select_run pick cands True = Ran i (perform (cands ! i))))
   \<and> select pick cands True \<noteq> SelectBlocks
   \<and> (ready (RecvCase ch1 w1) \<longleftrightarrow>
        (\<exists>msg ok ch' h. receive w1 ch1 = Returns ((msg, ok), ch', h)))
   \<and> (ready (SendCase ch1 v w) \<and> (w \<longrightarrow> buffer ch1 = []) \<longrightarrow> send v w ch1 \<noteq> Blocks)
   \<and> (\<not> ready (RecvCase ch1 w1) \<and> \<not> ready (RecvCase ch2 w2) \<longrightarrow>
        select_example pick ch1 w1 ch2 w2 = Some (No_message_received, ch1, ch2, False))
   \<and> (ready (RecvCase ch1 w1) \<and> \<not> ready (RecvCase ch2 w2) \<longrightarrow>
        (\<exists>msg ok ch' h. receive w1 ch1 = Returns ((msg, ok), ch', h)
           \<and> select_example pick ch1 w1 ch2 w2 = Some (Received msg, ch', ch2, h)))
   \<and> (\<not> ready (RecvCase ch1 w1) \<and> ready (RecvCase ch2 w2) \<longrightarrow>
        (\<exists>msg ok ch' h. receive w2 ch2 = Returns ((msg, ok), ch', h)
           \<and> select_example pick ch1 w1 ch2 w2 = Some (Received msg, ch1, ch', h)))
   \<and> (ready (RecvCase ch1 w1) \<and> ready (RecvCase ch2 w2) \<longrightarrow>
        (\<exists>msg ok ch' h. receive w1 ch1 = Returns ((msg, ok), ch', h)
           \<and> select_example pick ch1 w1 ch2 w2 = Some (Received msg, ch', ch2, h))
        \<or> (\<exists>msg ok ch' h. receive w2 ch2 = Returns ((msg, ok), ch', h)
           \<and> select_example pick ch1 w1 ch2 w2 = Some (Received msg, ch1, ch', h)))"
proof (intro conjI impI)
  assume "\<forall>c \<in> set cands. \<not> ready c"
  then show "select pick cands True = RunDefault" by (rule select_none_ready)
next
  assume "\<forall>c \<in> set cands. \<not> ready c"
  then show "select_run pick cands True = RanDefault" by (rule select_run_none_ready)
next
  assume "\<exists>c \<in> set cands. ready c"
  then show "\<exists>i < length cands. ready (cands ! i) \<and> select pick cands True = Fired i
      \<and> select_run pick cands True = Ran i (perform (cands ! i))"
    by (rule select_run_some_ready)
next
  show "select pick cands True \<noteq> SelectBlocks" by (rule select_never_blocks)
next
  show "ready (RecvCase ch1 w1) \<longleftrightarrow>
      (\<exists>msg ok ch' h. receive w1 ch1 = Returns ((msg, ok), ch', h))"
    by (rule ready_receive)
next
  assume "ready (SendCase ch1 v w) \<and> (w \<longrightarrow> buffer ch1 = [])"
  then show "send v w ch1 \<noteq> Blocks" using ready_send [of ch1 v w] by simp
next
  assume "\<not> ready (RecvCase ch1 w1) \<and> \<not> ready (RecvCase ch2 w2)"
  then show "select_example pick ch1 w1 ch2 w2 = Some (No_message_received, ch1, ch2, False)"
    by (simp add: select_example_default)
next
  assume "ready (RecvCase ch1 w1) \<and> \<not> ready (RecvCase ch2 w2)"
  then show "\<exists>msg ok ch' h. receive w1 ch1 = Returns ((msg, ok), ch', h)
      \<and> select_example pick ch1 w1 ch2 w2 = Some (Received msg, ch', ch2, h)"
    using select_example_first [of ch1 w1 ch2 w2 pick] by simp
next
  assume "\<not> ready (RecvCase ch1 w1) \<and> ready (RecvCase ch2 w2)"
  then show "\<exists>msg ok ch' h. receive w2 ch2 = Returns ((msg, ok), ch', h)
      \<and> select_example pick ch1 w1 ch2 w2 = Some (Received msg, ch1, ch', h)"
    using select_example_second [of ch1 w1 ch2 w2 pick] by simp
next
  assume "ready (RecvCase ch1 w1) \<and> ready (RecvCase ch2 w2)"
  then show "(\<exists>msg ok ch' h. receive w1 ch1 = Returns ((msg, ok), ch', h)
        \<and> select_example pick ch1 w1 ch2 w2 = Some (Received msg, ch', ch2, h))
      \<or> (\<exists>msg ok ch' h. receive w2 ch2 = Returns ((msg, ok), ch', h)
        \<and> select_example pick ch1 w1 ch2 w2 = Some (Received msg, ch1, ch', h))"
    using select_example_both [of ch1 w1 ch2 w2 pick] by simp
qed

theorem select_with_default_witness:
  "select 5 [RecvCase (make_chan 0 :: int channel) None, SendCase (make_chan 0) 1 False] True
     = RunDefault
   \<and> select_run 5 [RecvCase (make_chan 0 :: int channel) None,
                    RecvCase \<lparr>capacity = 1, buffer = [9], chan_closed = False\<rparr> None] True
     = Ran 1 (Recvd (Returns ((9, True),
                \<lparr>capacity = 1, buffer = [], chan_closed = False\<rparr>, False)))
   \<and> send 1 True (make_chan 0 :: int channel) = Returns (make_chan 0, True)
   \<and> select_example 5 (make_chan 0 :: int channel) None (make_chan 3) None
     = Some (No_message_received, make_chan 0, make_chan 3, False)
   \<and> select_example 5 \<lparr>capacity = 1, buffer = [7 :: int], chan_closed = False\<rparr> None
        (make_chan 0) None
     = Some (Received 7, \<lparr>capacity = 1, buffer = [], chan_closed = False\<rparr>, make_chan 0, False)
   \<and> select_example 5 (make_chan 0 :: int channel) None (make_chan 0) (Some 4)
     = Some (Received 4, make_chan 0, make_chan 0, True)"
  using select_with_default
    [where cands = "[RecvCase (make_chan 0 :: int channel) None, SendCase (make_chan 0) 1 False]"
       and pick = 5 and ?ch1.0 = "make_chan 0 :: int channel" and ?w1.0 = None
       and ?ch2.0 = "make_chan 3" and ?w2.0 = None and v = 1 and w = True]
    select_with_default
    [where cands = "[RecvCase (make_chan 0 :: int channel) None,
          RecvCase \<lparr>capacity = 1, buffer = [9], chan_closed = False\<rparr> None]"
       and pick = 5 and ?ch1.0 = "\<lparr>capacity = 1, buffer = [7 :: int], chan_closed = False\<rparr>"
       and ?w1.0 = None and ?ch2.0 = "make_chan 0" and ?w2.0 = None and v = 1 and w = False]
    select_with_default
    [where cands = "[] :: int candidate list" and pick = 5
       and ?ch1.0 = "make_chan 0 :: int channel" and ?w1.0 = None
       and ?ch2.0 = "make_chan 0" and ?w2.0 = "Some 4" and v = 1 and w = False]
  by (simp add: make_chan_def select_def select_run_def select_example_def receive_def
        send_def upt_rec)

section \<open>Ranging over a channel: one producer, one consumer: properties\<close>

lemma range_inv_init: "range_inv vals (range_init c vals)"
  by (simp add: range_inv_def range_init_def make_chan_def)

lemma producer_step_inv:
  assumes "range_inv vals s" and "producer_step s = Some s'"
  shows "range_inv vals s' \<and> range_measure s' < range_measure s"
proof (cases "prod_pc s")
  case Returned
  with assms show ?thesis by (simp add: producer_step_def)
next
  case (Sending vs)
  show ?thesis
  proof (cases vs)
    case Nil
    with assms Sending show ?thesis
      by (auto simp: producer_step_def close_def range_inv_def range_measure_def
               split: if_splits)
  next
    case (Cons v rest)
    with assms Sending show ?thesis
      by (auto simp: producer_step_def send_def range_inv_def range_measure_def
                     receiver_waits_def
               split: if_splits)
  qed
qed

lemma consumer_step_inv:
  assumes "range_inv vals s" and "consumer_step s = Some s'"
  shows "range_inv vals s' \<and> range_measure s' < range_measure s"
proof (cases "cons_pc s")
  case Finished
  with assms show ?thesis by (simp add: consumer_step_def)
next
  case Ranging
  show ?thesis
  proof (cases "buffer (range_ch s)")
    case (Cons v rest)
    with assms Ranging show ?thesis
      by (auto simp: consumer_step_def receive_def range_inv_def range_measure_def)
  next
    case Nil
    show ?thesis
    proof (cases "chan_closed (range_ch s)")
      case True
      with assms Ranging Nil show ?thesis
        by (auto simp: consumer_step_def receive_def range_inv_def range_measure_def)
    next
      case False
      from assms(2) Ranging Nil False obtain v where off: "sender_offers s = Some v"
        by (auto simp: consumer_step_def receive_def split: option.splits)
      then obtain vs where p: "prod_pc s = Sending (v # vs)"
        by (auto simp: sender_offers_def split: producer.splits list.splits if_splits)
      from assms(2) Ranging Nil False off p
      have "s' = s\<lparr>range_ch := range_ch s, printed_vals := printed_vals s @ [v], prod_pc := Sending vs\<rparr>"
        by (simp add: consumer_step_def receive_def)
      with assms(1) Nil False p show ?thesis
        by (simp add: range_inv_def range_measure_def)
    qed
  qed
qed

lemma range_step_inv:
  assumes "range_inv vals s" and "range_step e s = Some s'"
  shows "range_inv vals s' \<and> range_measure s' < range_measure s"
proof (cases e)
  case Producer
  with assms(2) have "producer_step s = Some s'"
    by (simp add: range_step_def split: if_splits)
  with assms(1) show ?thesis by (rule producer_step_inv)
next
  case Consumer
  with assms(2) have "consumer_step s = Some s'"
    by (simp add: range_step_def split: if_splits)
  with assms(1) show ?thesis by (rule consumer_step_inv)
qed

lemma range_reach_inv:
  assumes "exec range_step es (range_init c vals) = Some s"
  shows "range_inv vals s"
proof (rule exec_invariant [where I = "range_inv vals" and step = range_step])
  show "range_inv vals (range_init c vals)" by (rule range_inv_init)
  show "exec range_step es (range_init c vals) = Some s" by (rule assms)
  show "\<And>e s s'. range_inv vals s \<Longrightarrow> range_step e s = Some s' \<Longrightarrow> range_inv vals s'"
    by (simp add: range_step_inv)
qed

lemma range_reach_bounded:
  assumes "exec range_step es (range_init c vals) = Some s"
  shows "length es \<le> 2 * length vals + 2"
proof -
  have "length es + range_measure s \<le> range_measure (range_init c vals)"
  proof (rule exec_bounded [where I = "range_inv vals" and step = range_step])
    show "range_inv vals (range_init c vals)" by (rule range_inv_init)
    show "exec range_step es (range_init c vals) = Some s" by (rule assms)
    show "\<And>e s s'. range_inv vals s \<Longrightarrow> range_step e s = Some s' \<Longrightarrow>
            range_inv vals s' \<and> range_measure s' < range_measure s"
      by (rule range_step_inv)
  qed
  then show ?thesis by (simp add: range_measure_def range_init_def make_chan_def)
qed

lemma range_progress:
  assumes inv: "range_inv vals s" and run: "cons_pc s = Ranging"
  shows "\<exists>e s'. range_step e s = Some s'"
proof (cases "buffer (range_ch s) \<noteq> [] \<or> chan_closed (range_ch s)")
  case True
  with inv run have "\<exists>s'. range_step Consumer s = Some s'"
    by (cases "buffer (range_ch s)")
       (auto simp: range_step_def consumer_step_def receive_def range_inv_def)
  then show ?thesis by blast
next
  case False
  with inv obtain vs where vs: "prod_pc s = Sending vs"
    by (cases "prod_pc s") (auto simp: range_inv_def)
  from False inv run vs have "\<exists>s'. range_step Producer s = Some s'"
    by (cases vs)
       (auto simp: range_step_def producer_step_def send_def close_def range_inv_def
                   receiver_waits_def)
  then show ?thesis by blast
qed

lemma range_finished:
  assumes "range_inv vals s" and "cons_pc s = Finished"
  shows "printed_vals s = vals"
  using assms by (cases "prod_pc s") (auto simp: range_inv_def)

text \<open>
  C6. In every run of the producer and the consumer, over a channel of any capacity and for
  any values sent: nothing panics; the values printed, then those in the buffer, then those
  not yet sent, are the values to send in their order, so the values are received in the
  order they were sent; when the consumer has left its loop it has printed exactly the
  values sent; while it has not, some task can move (no deadlock); and a run has at most
  \<open>2 * length vals + 2\<close> moves, so every run ends with all values received in order.
\<close>

theorem range_fifo:
  assumes "exec range_step es (range_init c vals) = Some s"
  shows "range_panic s = None
    \<and> printed_vals s @ buffer (range_ch s) @ unsent (prod_pc s) = vals
    \<and> (cons_pc s = Finished \<longrightarrow> printed_vals s = vals)
    \<and> (cons_pc s = Ranging \<longrightarrow> (\<exists>e s'. range_step e s = Some s'))
    \<and> length es \<le> 2 * length vals + 2"
proof -
  have inv: "range_inv vals s" using assms by (rule range_reach_inv)
  have "range_panic s = None" and "printed_vals s @ buffer (range_ch s) @ unsent (prod_pc s) = vals"
    using inv by (simp_all add: range_inv_def)
  moreover have "cons_pc s = Finished \<longrightarrow> printed_vals s = vals"
    using range_finished [OF inv] by simp
  moreover have "cons_pc s = Ranging \<longrightarrow> (\<exists>e s'. range_step e s = Some s')"
    using range_progress [OF inv] by simp
  moreover have "length es \<le> 2 * length vals + 2"
    using assms by (rule range_reach_bounded)
  ultimately show ?thesis by simp
qed

lemma source_run:
  "exec range_step [Producer, Consumer, Producer, Producer, Consumer] source_range_init
   = Some \<lparr>range_ch = \<lparr>capacity = 0, buffer = [], chan_closed = True\<rparr>, prod_pc = Returned,
           cons_pc = Finished, printed_vals = [1, 2, 3], range_panic = None\<rparr>"
  by (simp add: source_range_init_def range_init_def make_chan_def range_step_def
        producer_step_def consumer_step_def send_def receive_def close_def
        receiver_waits_def sender_offers_def)

theorem range_fifo_witness:
  "exec range_step [Producer, Consumer, Producer, Producer, Consumer] (range_init 0 [1, 2, 3])
   = Some \<lparr>range_ch = \<lparr>capacity = 0, buffer = [], chan_closed = True\<rparr>, prod_pc = Returned,
           cons_pc = Finished, printed_vals = [1, 2, 3], range_panic = None\<rparr>
   \<and> length [Producer, Consumer, Producer, Producer, Consumer] \<le> 2 * length [1, 2, 3 :: int] + 2"
  using range_fifo
    [of "[Producer, Consumer, Producer, Producer, Consumer]" 0 "[1, 2, 3]"
        "\<lparr>range_ch = \<lparr>capacity = 0, buffer = [], chan_closed = True\<rparr>, prod_pc = Returned,
          cons_pc = Finished, printed_vals = [1, 2, 3], range_panic = None\<rparr>"]
    source_run
  by (simp add: source_range_init_def)

section \<open>Tasks and a WaitGroup: properties\<close>

lemma sum_list_map_update:
  "k < length xs \<Longrightarrow>
   sum_list (map f (xs[k := y])) + f (xs ! k) = sum_list (map f xs) + (f y :: nat)"
  by (induction xs arbitrary: k) (auto split: nat.splits)

lemma sum_list_map_pos:
  "0 < sum_list (map f xs) \<Longrightarrow> \<exists>k < length xs. 0 < (f (xs ! k) :: nat)"
proof (induction xs)
  case Nil
  then show ?case by simp
next
  case (Cons x xs)
  show ?case
  proof (cases "0 < f x")
    case True
    then have "0 < length (x # xs) \<and> 0 < f ((x # xs) ! 0)" by simp
    then show ?thesis by blast
  next
    case False
    with Cons.prems have "0 < sum_list (map f xs)" by simp
    from Cons.IH [OF this] obtain k where "k < length xs" and "0 < f (xs ! k)" by blast
    then have "Suc k < length (x # xs) \<and> 0 < f ((x # xs) ! Suc k)" by simp
    then show ?thesis by blast
  qed
qed

lemma sum_list_map_zero:
  "sum_list (map f xs) = (0 :: nat) \<Longrightarrow> \<forall>x \<in> set xs. f x = 0"
  by (induction xs) auto

lemma tasks_inv_init: "tasks_inv last_i tasks_init"
  by (simp add: tasks_inv_def tasks_init_def)

lemma tasks_main_step_inv:
  assumes inv: "tasks_inv last_i s" and step: "tasks_main_step last_i s = Some s'"
  shows "tasks_inv last_i s' \<and> tasks_measure last_i s' < tasks_measure last_i s"
proof (cases "main_at s")
  case (Adding i)
  from inv have "0 \<le> wg s" by (simp add: tasks_inv_def Adding)
  with step Adding have "s' = s\<lparr>wg := wg s + 1, main_at := Spawning i\<rparr>"
    by (simp add: tasks_main_step_def wg_add_def)
  with inv Adding show ?thesis by (simp add: tasks_inv_def tasks_measure_def)
next
  case (Spawning i)
  with step have s': "s' = s\<lparr>tasks := tasks s @ [Doing i],
      main_at := (if i + 1 \<le> last_i then Adding (i + 1) else Waiting)\<rparr>"
    by (simp add: tasks_main_step_def)
  from inv Spawning have "i \<le> last_i" by (simp add: tasks_inv_def)
  with inv Spawning s' show ?thesis
    by (cases "i + 1 \<le> last_i") (simp_all add: tasks_inv_def tasks_measure_def)
next
  case Waiting
  with step have "wg s = 0" and "s' = s\<lparr>main_at := MainReturned\<rparr>"
    by (simp_all add: tasks_main_step_def wg_wait_def split: if_splits)
  with inv Waiting show ?thesis by (simp add: tasks_inv_def tasks_measure_def)
next
  case MainReturned
  with step show ?thesis by (simp add: tasks_main_step_def)
qed

lemma task_step_inv:
  assumes inv: "tasks_inv last_i s" and step: "task_step k s = Some s'"
  shows "tasks_inv last_i s' \<and> tasks_measure last_i s' < tasks_measure last_i s"
proof -
  from step have k: "k < length (tasks s)"
    by (simp add: task_step_def split: if_splits)
  note upd_p = sum_list_map_update [OF k, of pending]
  note upd_m = sum_list_map_update [OF k, of task_moves]
  have pos: "0 < pending (tasks s ! k) \<Longrightarrow> 0 < wg s \<and> main_at s \<noteq> MainReturned"
  proof -
    assume "0 < pending (tasks s ! k)"
    with upd_p [of TaskEnded] have "0 < sum_list (map pending (tasks s))" by simp
    with inv have "0 < wg s" by (cases "main_at s") (simp_all add: tasks_inv_def)
    moreover from this inv have "main_at s \<noteq> MainReturned" by (auto simp: tasks_inv_def)
    ultimately show ?thesis by simp
  qed
  show ?thesis
  proof (cases "tasks s ! k")
    case (Doing i)
    with step k have s': "s' = s\<lparr>tasks := (tasks s)[k := Deferred]\<rparr>"
      by (simp add: task_step_def)
    from pos Doing have "main_at s \<noteq> MainReturned" by simp
    with upd_p [of Deferred] upd_m [of Deferred] Doing inv s' show ?thesis
      by (simp add: tasks_inv_def tasks_measure_def)
  next
    case Deferred
    from upd_p [of TaskEnded] Deferred
    have p: "sum_list (map pending (tasks s)) = sum_list (map pending ((tasks s)[k := TaskEnded])) + 1"
      by simp
    from pos Deferred have "0 < wg s" and "main_at s \<noteq> MainReturned" by simp_all
    with step k Deferred have s': "s' = s\<lparr>wg := wg s - 1, tasks := (tasks s)[k := TaskEnded]\<rparr>"
      by (simp add: task_step_def wg_done_def wg_add_def)
    from p upd_m [of TaskEnded] Deferred inv s' \<open>main_at s \<noteq> MainReturned\<close> show ?thesis
      by (simp add: tasks_inv_def tasks_measure_def)
  next
    case TaskEnded
    with step k show ?thesis by (simp add: task_step_def)
  qed
qed

lemma tasks_step_inv:
  assumes "tasks_inv last_i s" and "tasks_step last_i e s = Some s'"
  shows "tasks_inv last_i s' \<and> tasks_measure last_i s' < tasks_measure last_i s"
proof (cases e)
  case Main
  with assms(2) have "tasks_main_step last_i s = Some s'"
    by (simp add: tasks_step_def split: if_splits)
  with assms(1) show ?thesis by (rule tasks_main_step_inv)
next
  case (Task k)
  with assms(2) have "task_step k s = Some s'"
    by (simp add: tasks_step_def split: if_splits)
  with assms(1) show ?thesis by (rule task_step_inv)
qed

lemma tasks_reach_inv:
  assumes "exec (tasks_step last_i) es tasks_init = Some s"
  shows "tasks_inv last_i s"
proof (rule exec_invariant [where I = "tasks_inv last_i" and step = "tasks_step last_i"])
  show "tasks_inv last_i tasks_init" by (rule tasks_inv_init)
  show "exec (tasks_step last_i) es tasks_init = Some s" by (rule assms)
  show "\<And>e s s'. tasks_inv last_i s \<Longrightarrow> tasks_step last_i e s = Some s' \<Longrightarrow> tasks_inv last_i s'"
    by (simp add: tasks_step_inv)
qed

lemma tasks_reach_bounded:
  assumes "exec (tasks_step last_i) es tasks_init = Some s"
  shows "length es \<le> 4 * (last_i + 1) + 1"
proof -
  have "length es + tasks_measure last_i s \<le> tasks_measure last_i tasks_init"
  proof (rule exec_bounded [where I = "tasks_inv last_i" and step = "tasks_step last_i"])
    show "tasks_inv last_i tasks_init" by (rule tasks_inv_init)
    show "exec (tasks_step last_i) es tasks_init = Some s" by (rule assms)
    show "\<And>e s s'. tasks_inv last_i s \<Longrightarrow> tasks_step last_i e s = Some s' \<Longrightarrow>
            tasks_inv last_i s' \<and> tasks_measure last_i s' < tasks_measure last_i s"
      by (rule tasks_step_inv)
  qed
  then show ?thesis by (simp add: tasks_measure_def tasks_init_def)
qed

lemma tasks_all_done:
  assumes inv: "tasks_inv last_i s" and ret: "main_at s = MainReturned"
  shows "length (tasks s) = last_i + 1 \<and> (\<forall>t \<in> set (tasks s). t = TaskEnded)"
proof -
  from inv ret have "int (sum_list (map pending (tasks s))) = 0"
    and len: "length (tasks s) = last_i + 1"
    by (auto simp: tasks_inv_def)
  then have "sum_list (map pending (tasks s)) = 0" by linarith
  then have "\<forall>t \<in> set (tasks s). pending t = 0" by (rule sum_list_map_zero)
  moreover have "\<And>t. pending t = 0 \<Longrightarrow> t = TaskEnded"
    by (case_tac t) simp_all
  ultimately show ?thesis using len by blast
qed

lemma tasks_progress:
  assumes inv: "tasks_inv last_i s" and run: "main_at s \<noteq> MainReturned"
  shows "\<exists>e s'. tasks_step last_i e s = Some s'"
proof (cases "main_at s = Waiting \<and> wg s \<noteq> 0")
  case False
  from inv have "0 \<le> wg s" by (cases "main_at s") (simp_all add: tasks_inv_def)
  with False inv run have "\<exists>s'. tasks_step last_i Main s = Some s'"
    by (cases "main_at s")
       (simp_all add: tasks_step_def tasks_main_step_def wg_add_def wg_wait_def tasks_inv_def)
  then show ?thesis by blast
next
  case True
  define p where "p = sum_list (map pending (tasks s))"
  from inv have eq: "wg s = int p + added (main_at s)"
    unfolding tasks_inv_def p_def by blast
  from True have w: "main_at s = Waiting" and nz: "wg s \<noteq> 0" by simp_all
  from eq w have "wg s = int p" by simp
  with nz have "0 < p" and wg: "0 < wg s" by simp_all
  then have pos: "0 < sum_list (map pending (tasks s))" by (simp only: p_def)
  from sum_list_map_pos [OF pos] obtain k where k: "k < length (tasks s)"
    and pk: "0 < pending (tasks s ! k)" by blast
  from pk k wg inv True have "\<exists>s'. tasks_step last_i (Task k) s = Some s'"
    by (cases "tasks s ! k")
       (simp_all add: tasks_step_def task_step_def wg_done_def wg_add_def tasks_inv_def)
  then show ?thesis by blast
qed

lemma wait_blocks_at_main:
  assumes "main_at s = Waiting" and "0 < wg s"
  shows "tasks_step last_i Main s = None"
  using assms by (simp add: tasks_step_def tasks_main_step_def wg_wait_def)

text \<open>
  C5. \<^verbatim>\<open>wait\<close> blocks on every counter above 0 and returns at once on the counter 0.
  In every run of the program: nothing panics and the counter is never negative;
  \<^verbatim>\<open>main\<close> cannot move past \<^verbatim>\<open>wg.Wait()\<close> while the counter is above 0; when
  \<^verbatim>\<open>main\<close> has returned from \<^verbatim>\<open>wg.Wait()\<close>, all \<open>last_i + 1\<close> tasks (eleven in the
  source) have been spawned and every one of them has made its \<^verbatim>\<open>Done()\<close> call; until
  then some task or \<^verbatim>\<open>main\<close> can move (no deadlock); and a run has at most
  \<open>4 * (last_i + 1) + 1\<close> moves.
\<close>

theorem wait_returns_after_all_done:
  assumes "exec (tasks_step last_i) es tasks_init = Some s"
  shows "(\<forall>c. 0 < c \<longrightarrow> wg_wait c = Blocks) \<and> wg_wait 0 = Returns ()
    \<and> tasks_panic s = None \<and> 0 \<le> wg s
    \<and> (main_at s = Waiting \<and> 0 < wg s \<longrightarrow> tasks_step last_i Main s = None)
    \<and> (main_at s = MainReturned \<longrightarrow>
         length (tasks s) = last_i + 1 \<and> (\<forall>t \<in> set (tasks s). t = TaskEnded))
    \<and> (main_at s \<noteq> MainReturned \<longrightarrow> (\<exists>e s'. tasks_step last_i e s = Some s'))
    \<and> length es \<le> 4 * (last_i + 1) + 1"
proof -
  have inv: "tasks_inv last_i s" using assms by (rule tasks_reach_inv)
  have "\<forall>c. 0 < c \<longrightarrow> wg_wait c = Blocks" and "wg_wait 0 = Returns ()"
    by (simp_all add: wg_wait_def)
  moreover have "tasks_panic s = None" using inv by (simp add: tasks_inv_def)
  moreover have "0 \<le> wg s" using inv by (cases "main_at s") (simp_all add: tasks_inv_def)
  moreover have "main_at s = Waiting \<and> 0 < wg s \<longrightarrow> tasks_step last_i Main s = None"
    by (simp add: wait_blocks_at_main)
  moreover have "main_at s = MainReturned \<longrightarrow>
      length (tasks s) = last_i + 1 \<and> (\<forall>t \<in> set (tasks s). t = TaskEnded)"
    using tasks_all_done [OF inv] by simp
  moreover have "main_at s \<noteq> MainReturned \<longrightarrow> (\<exists>e s'. tasks_step last_i e s = Some s')"
    using tasks_progress [OF inv] by simp
  moreover have "length es \<le> 4 * (last_i + 1) + 1"
    using assms by (rule tasks_reach_bounded)
  ultimately show ?thesis by simp
qed

lemma source_tasks_exec:
  "exec (tasks_step 10) source_tasks_run tasks_init
   = Some \<lparr>wg = 0, main_at = MainReturned, tasks = replicate 11 TaskEnded, tasks_panic = None\<rparr>"
  by code_simp

lemma source_tasks_len: "length source_tasks_run = 45"
  by code_simp

theorem wait_returns_after_all_done_witness:
  "exec (tasks_step 10) source_tasks_run tasks_init
   = Some \<lparr>wg = 0, main_at = MainReturned, tasks = replicate 11 TaskEnded, tasks_panic = None\<rparr>
   \<and> length (replicate 11 TaskEnded) = 10 + 1
   \<and> wg_wait 3 = Blocks \<and> wg_wait 0 = Returns ()
   \<and> length source_tasks_run \<le> 4 * (10 + 1) + 1"
  using wait_returns_after_all_done [OF source_tasks_exec] source_tasks_exec
  by simp

section \<open>A counter under a mutex: properties\<close>

lemma stored_all: "\<forall>x \<in> set xs. not_done x = 0 \<Longrightarrow> sum_list (map stored xs) = length xs"
proof (induction xs)
  case Nil
  then show ?case by simp
next
  case (Cons x xs)
  then have "not_done x = 0" by simp
  then have "stored x = 1" by (cases x) simp_all
  with Cons show ?case by simp
qed

lemma post_inv_init: "post_inv n (post_init n)"
  by (simp add: post_inv_def counts_inv_def lock_inv_def post_init_def)

lemma counts_wg_nonneg: "counts_inv n s \<Longrightarrow> 0 \<le> post_wg s"
  by (cases "post_main s") (simp_all add: counts_inv_def)

lemma past_wait_views:
  assumes inv: "counts_inv n s" and past: "past_wait (post_main s)"
  shows "views (myPost s) = int n"
proof -
  define p where "p = sum_list (map not_done (viewers s))"
  from inv have "post_wg s = int p + post_added (post_main s)"
    unfolding counts_inv_def p_def by blast
  moreover from inv past have "post_wg s = 0" unfolding counts_inv_def by blast
  moreover from past have "post_added (post_main s) = 0" by (cases "post_main s") simp_all
  ultimately have "p = 0" by simp
  then have "\<forall>x \<in> set (viewers s). not_done x = 0"
    unfolding p_def by (rule sum_list_map_zero)
  then have "sum_list (map stored (viewers s)) = length (viewers s)" by (rule stored_all)
  moreover from inv past have "length (viewers s) = n"
    by (cases "post_main s") (simp_all add: counts_inv_def)
  moreover from inv have "views (myPost s) = int (sum_list (map stored (viewers s)))"
    unfolding counts_inv_def by blast
  ultimately show ?thesis by simp
qed

lemma post_main_step_inv:
  assumes inv: "post_inv n s" and step: "post_main_step n s = Some s'"
  shows "post_inv n s' \<and> post_measure n s' < post_measure n s"
proof -
  from inv have c: "counts_inv n s" and l: "lock_inv s" by (simp_all add: post_inv_def)
  show ?thesis
  proof (cases "post_main s")
    case (PAdding i)
    from c have "0 \<le> post_wg s" by (rule counts_wg_nonneg)
    with step PAdding have s': "s' = s\<lparr>post_wg := post_wg s + 1, post_main := PSpawning i\<rparr>"
      by (simp add: post_main_step_def wg_add_def)
    from c PAdding have "counts_inv n s'" by (simp add: counts_inv_def s')
    moreover from l have "lock_inv s'" by (simp add: lock_inv_def s')
    moreover have "post_measure n s' < post_measure n s"
      by (simp add: post_measure_def s' PAdding)
    ultimately show ?thesis by (simp add: post_inv_def)
  next
    case (PSpawning i)
    with step have s': "s' = s\<lparr>viewers := viewers s @ [AtLock],
        post_main := (if i + 1 < n then PAdding (i + 1) else PWaiting)\<rparr>"
      by (simp add: post_main_step_def)
    from c PSpawning have i: "i < n" by (simp add: counts_inv_def)
    from c PSpawning i have "counts_inv n s'"
      by (cases "i + 1 < n") (simp_all add: counts_inv_def s')
    moreover from l have "lock_inv s'"
      by (auto simp: lock_inv_def s' nth_append)
    moreover from i have "post_measure n s' < post_measure n s"
      by (cases "i + 1 < n") (simp_all add: post_measure_def s' PSpawning)
    ultimately show ?thesis by (simp add: post_inv_def)
  next
    case PWaiting
    with step have wg0: "post_wg s = 0" and s': "s' = s\<lparr>post_main := PPrinting\<rparr>"
      by (simp_all add: post_main_step_def wg_wait_def split: if_splits)
    from c PWaiting wg0 have "counts_inv n s'"
      by (simp add: counts_inv_def s' del: sum_list_eq_0_iff)
    moreover from l have "lock_inv s'" by (simp add: lock_inv_def s')
    moreover have "post_measure n s' < post_measure n s"
      by (simp add: post_measure_def s' PWaiting)
    ultimately show ?thesis by (simp add: post_inv_def)
  next
    case PPrinting
    with step have s': "s' = s\<lparr>printed_views := Some (views (myPost s)), post_main := PReturned\<rparr>"
      by (simp add: post_main_step_def)
    from c PPrinting have "views (myPost s) = int n" by (simp add: past_wait_views)
    with c PPrinting have "counts_inv n s'"
      by (simp add: counts_inv_def s' del: sum_list_eq_0_iff)
    moreover from l have "lock_inv s'" by (simp add: lock_inv_def s')
    moreover have "post_measure n s' < post_measure n s"
      by (simp add: post_measure_def s' PPrinting)
    ultimately show ?thesis by (simp add: post_inv_def)
  next
    case PReturned
    with step show ?thesis by (simp add: post_main_step_def)
  qed
qed

lemma incView_inv:
  assumes inv: "post_inv n s" and step: "incView k s = Some s'"
  shows "post_inv n s' \<and> post_measure n s' < post_measure n s"
proof -
  from inv have c: "counts_inv n s" and l: "lock_inv s" by (simp_all add: post_inv_def)
  from step have k: "k < length (viewers s)"
    by (simp add: incView_def split: if_splits)
  note upd_n = sum_list_map_update [OF k, of not_done]
  note upd_s = sum_list_map_update [OF k, of stored]
  note upd_m = sum_list_map_update [OF k, of inc_moves]
  from l k have held: "holds (viewers s ! k) \<longleftrightarrow> mu (myPost s) = Some k"
    by (simp add: lock_inv_def)
  have running: "0 < not_done (viewers s ! k) \<Longrightarrow> 0 < post_wg s \<and> \<not> past_wait (post_main s)"
  proof -
    assume "0 < not_done (viewers s ! k)"
    with upd_n [of IncEnded] have pos: "0 < sum_list (map not_done (viewers s))" by simp
    define p where "p = sum_list (map not_done (viewers s))"
    from c have "post_wg s = int p + post_added (post_main s)"
      unfolding counts_inv_def p_def by blast
    moreover have "0 \<le> post_added (post_main s)" by (cases "post_main s") simp_all
    moreover from pos have "0 < p" by (simp only: p_def)
    ultimately have "0 < post_wg s" by simp
    moreover from this c have "\<not> past_wait (post_main s)"
      unfolding counts_inv_def by auto
    ultimately show ?thesis by simp
  qed
  show ?thesis
  proof (cases "viewers s ! k")
    case AtLock
    with step k have free: "mu (myPost s) = None"
      and s': "s' = s\<lparr>myPost := (myPost s)\<lparr>mu := Some k\<rparr>, viewers := (viewers s)[k := AtRead]\<rparr>"
      by (simp_all add: incView_def lock_def split: option.splits)
    from running AtLock have np: "\<not> past_wait (post_main s)" by simp
    then have nr: "post_main s \<noteq> PReturned" by auto
    from c upd_n [of AtRead] upd_s [of AtRead] AtLock np nr have "counts_inv n s'"
      by (simp add: counts_inv_def s' del: sum_list_eq_0_iff)
    moreover from l free k have "lock_inv s'"
      by (auto simp: lock_inv_def s' nth_list_update)
    moreover from upd_m [of AtRead] AtLock have "post_measure n s' < post_measure n s"
      by (simp add: post_measure_def s')
    ultimately show ?thesis by (simp add: post_inv_def)
  next
    case AtRead
    with step k
    have s': "s' = s\<lparr>viewers := (viewers s)[k := AtWrite (views (myPost s))]\<rparr>"
      by (simp add: incView_def)
    from running AtRead have np: "\<not> past_wait (post_main s)" by simp
    then have nr: "post_main s \<noteq> PReturned" by auto
    from c upd_n [of "AtWrite (views (myPost s))"] upd_s [of "AtWrite (views (myPost s))"]
      AtRead np nr
    have "counts_inv n s'"
      by (simp add: counts_inv_def s' del: sum_list_eq_0_iff)
    moreover from l held AtRead k have "lock_inv s'"
      by (auto simp: lock_inv_def s' nth_list_update)
    moreover from upd_m [of "AtWrite (views (myPost s))"] AtRead
    have "post_measure n s' < post_measure n s"
      by (simp add: post_measure_def s')
    ultimately show ?thesis by (simp add: post_inv_def)
  next
    case (AtWrite r)
    with l k have r: "r = views (myPost s)" by (simp add: lock_inv_def)
    from step k AtWrite
    have s': "s' = s\<lparr>myPost := (myPost s)\<lparr>views := r + 1\<rparr>, viewers := (viewers s)[k := AtDone]\<rparr>"
      by (simp add: incView_def)
    from running AtWrite have np: "\<not> past_wait (post_main s)" by simp
    then have nr: "post_main s \<noteq> PReturned" by auto
    from c upd_n [of AtDone] upd_s [of AtDone] AtWrite np nr r have "counts_inv n s'"
      by (simp add: counts_inv_def s' del: sum_list_eq_0_iff)
    moreover from l held AtWrite k have "lock_inv s'"
      by (auto simp: lock_inv_def s' nth_list_update)
    moreover from upd_m [of AtDone] AtWrite have "post_measure n s' < post_measure n s"
      by (simp add: post_measure_def s')
    ultimately show ?thesis by (simp add: post_inv_def)
  next
    case AtDone
    from running AtDone have wg: "0 < post_wg s" and np: "\<not> past_wait (post_main s)"
      by simp_all
    from np have nr: "post_main s \<noteq> PReturned" by auto
    from step k AtDone wg
    have s': "s' = s\<lparr>post_wg := post_wg s - 1, viewers := (viewers s)[k := AtUnlock]\<rparr>"
      by (simp add: incView_def wg_done_def wg_add_def)
    from c upd_n [of AtUnlock] upd_s [of AtUnlock] AtDone np nr have "counts_inv n s'"
      by (simp add: counts_inv_def s' del: sum_list_eq_0_iff)
    moreover from l held AtDone k have "lock_inv s'"
      by (auto simp: lock_inv_def s' nth_list_update)
    moreover from upd_m [of AtUnlock] AtDone have "post_measure n s' < post_measure n s"
      by (simp add: post_measure_def s')
    ultimately show ?thesis by (simp add: post_inv_def)
  next
    case AtUnlock
    with held have mine: "mu (myPost s) = Some k" by simp
    with step k AtUnlock
    have s': "s' = s\<lparr>myPost := (myPost s)\<lparr>mu := None\<rparr>, viewers := (viewers s)[k := IncEnded]\<rparr>"
      by (simp add: incView_def unlock_def)
    from c upd_n [of IncEnded] upd_s [of IncEnded] AtUnlock have "counts_inv n s'"
      by (auto simp: counts_inv_def s' simp del: sum_list_eq_0_iff)
    moreover from l mine k have "lock_inv s'"
      by (auto simp: lock_inv_def s' nth_list_update)
    moreover from upd_m [of IncEnded] AtUnlock have "post_measure n s' < post_measure n s"
      by (simp add: post_measure_def s')
    ultimately show ?thesis by (simp add: post_inv_def)
  next
    case IncEnded
    with step k show ?thesis by (simp add: incView_def)
  qed
qed

lemma post_step_inv:
  assumes "post_inv n s" and "post_step n e s = Some s'"
  shows "post_inv n s' \<and> post_measure n s' < post_measure n s"
proof (cases e)
  case PostMain
  with assms(2) have "post_main_step n s = Some s'"
    by (simp add: post_step_def split: if_splits)
  with assms(1) show ?thesis by (rule post_main_step_inv)
next
  case (IncView k)
  with assms(2) have "incView k s = Some s'"
    by (simp add: post_step_def split: if_splits)
  with assms(1) show ?thesis by (rule incView_inv)
qed

lemma post_reach_inv:
  assumes "exec (post_step n) es (post_init n) = Some s"
  shows "post_inv n s"
proof (rule exec_invariant [where I = "post_inv n" and step = "post_step n"])
  show "post_inv n (post_init n)" by (rule post_inv_init)
  show "exec (post_step n) es (post_init n) = Some s" by (rule assms)
  show "\<And>e s s'. post_inv n s \<Longrightarrow> post_step n e s = Some s' \<Longrightarrow> post_inv n s'"
    by (simp add: post_step_inv)
qed

lemma post_reach_bounded:
  assumes "exec (post_step n) es (post_init n) = Some s"
  shows "length es \<le> 7 * n + 2"
proof -
  have "length es + post_measure n s \<le> post_measure n (post_init n)"
  proof (rule exec_bounded [where I = "post_inv n" and step = "post_step n"])
    show "post_inv n (post_init n)" by (rule post_inv_init)
    show "exec (post_step n) es (post_init n) = Some s" by (rule assms)
    show "\<And>e s s'. post_inv n s \<Longrightarrow> post_step n e s = Some s' \<Longrightarrow>
            post_inv n s' \<and> post_measure n s' < post_measure n s"
      by (rule post_step_inv)
  qed
  then show ?thesis by (simp add: post_measure_def post_init_def split: if_splits)
qed

lemma holder_moves:
  assumes c: "counts_inv n s" and l: "lock_inv s" and run: "post_main s \<noteq> PReturned"
    and wg: "0 < post_wg s" and j: "j < length (viewers s)" and h: "holds (viewers s ! j)"
  shows "\<exists>s'. post_step n (IncView j) s = Some s'"
proof -
  from l j h have "mu (myPost s) = Some j" by (simp add: lock_inv_def)
  with c run wg j h show ?thesis
    by (cases "viewers s ! j")
       (simp_all add: post_step_def incView_def unlock_def wg_done_def wg_add_def
          counts_inv_def)
qed

lemma post_progress:
  assumes inv: "post_inv n s" and run: "post_main s \<noteq> PReturned"
  shows "\<exists>e s'. post_step n e s = Some s'"
proof -
  from inv have c: "counts_inv n s" and l: "lock_inv s" by (simp_all add: post_inv_def)
  from c have nonneg: "0 \<le> post_wg s" by (rule counts_wg_nonneg)
  from c have ok: "post_panic s = None" by (simp add: counts_inv_def)
  show ?thesis
  proof (cases "post_main s = PWaiting \<and> post_wg s \<noteq> 0")
    case False
    with nonneg ok run have "\<exists>s'. post_step n PostMain s = Some s'"
      by (cases "post_main s")
         (simp_all add: post_step_def post_main_step_def wg_add_def wg_wait_def)
    then show ?thesis by blast
  next
    case True
    with nonneg have wg: "0 < post_wg s" by simp
    define p where "p = sum_list (map not_done (viewers s))"
    from c have "post_wg s = int p + post_added (post_main s)"
      unfolding counts_inv_def p_def by blast
    with True wg have "0 < p" by simp
    then have "0 < sum_list (map not_done (viewers s))" by (simp only: p_def)
    from sum_list_map_pos [OF this] obtain k where k: "k < length (viewers s)"
      and nd: "0 < not_done (viewers s ! k)" by blast
    show ?thesis
    proof (cases "holds (viewers s ! k)")
      case True
      from holder_moves [OF c l run wg k True] show ?thesis by blast
    next
      case False
      with nd have at_lock: "viewers s ! k = AtLock" by (cases "viewers s ! k") simp_all
      show ?thesis
      proof (cases "mu (myPost s)")
        case None
        with at_lock k ok run have "\<exists>s'. post_step n (IncView k) s = Some s'"
          by (simp add: post_step_def incView_def lock_def)
        then show ?thesis by blast
      next
        case (Some j)
        with l have j: "j < length (viewers s)" by (simp add: lock_inv_def)
        with l Some have "holds (viewers s ! j)" by (simp add: lock_inv_def)
        from holder_moves [OF c l run wg j this] show ?thesis by blast
      qed
    qed
  qed
qed

lemma post_mutual_exclusion:
  assumes "lock_inv s" and "j < length (viewers s)" and "k < length (viewers s)"
    and "holds (viewers s ! j)" and "holds (viewers s ! k)"
  shows "j = k"
proof -
  from assms have "mu (myPost s) = Some j" and "mu (myPost s) = Some k"
    by (simp_all add: lock_inv_def)
  then show ?thesis by simp
qed

text \<open>
  C4. In every run of the program, for any number \<open>n\<close> of iterations (100 in the
  source): nothing panics; at most one call of \<^verbatim>\<open>incView\<close> is between its
  \<^verbatim>\<open>Lock()\<close> and its \<^verbatim>\<open>Unlock()\<close>; once \<^verbatim>\<open>main\<close> is past \<^verbatim>\<open>wg.Wait()\<close>
  the counter \<^verbatim>\<open>views\<close> is exactly \<open>n\<close>, and that is the value printed; until
  \<^verbatim>\<open>main\<close> has returned some task can move (no deadlock); and a run has at most
  \<open>7 * n + 2\<close> moves, so every run ends with \<open>n\<close> printed.
\<close>

theorem mutex_counter_exact:
  assumes "exec (post_step n) es (post_init n) = Some s"
  shows "post_panic s = None
    \<and> (\<forall>j k. j < length (viewers s) \<and> k < length (viewers s)
          \<and> holds (viewers s ! j) \<and> holds (viewers s ! k) \<longrightarrow> j = k)
    \<and> (post_main s = PPrinting \<longrightarrow> views (myPost s) = int n)
    \<and> (post_main s = PReturned \<longrightarrow> printed_views s = Some (int n))
    \<and> (post_main s \<noteq> PReturned \<longrightarrow> (\<exists>e s'. post_step n e s = Some s'))
    \<and> length es \<le> 7 * n + 2"
proof -
  have inv: "post_inv n s" using assms by (rule post_reach_inv)
  then have c: "counts_inv n s" and l: "lock_inv s" by (simp_all add: post_inv_def)
  have "post_panic s = None" using c by (simp add: counts_inv_def)
  moreover have "\<forall>j k. j < length (viewers s) \<and> k < length (viewers s)
          \<and> holds (viewers s ! j) \<and> holds (viewers s ! k) \<longrightarrow> j = k"
    using post_mutual_exclusion [OF l] by blast
  moreover have "post_main s = PPrinting \<longrightarrow> views (myPost s) = int n"
    using past_wait_views [OF c] by simp
  moreover have "post_main s = PReturned \<longrightarrow> printed_views s = Some (int n)"
    using c by (simp add: counts_inv_def)
  moreover have "post_main s \<noteq> PReturned \<longrightarrow> (\<exists>e s'. post_step n e s = Some s')"
    using post_progress [OF inv] by simp
  moreover have "length es \<le> 7 * n + 2"
    using assms by (rule post_reach_bounded)
  ultimately show ?thesis by simp
qed

lemma source_post_exec:
  "exec (post_step 100) source_post_run (post_init 100)
   = Some \<lparr>myPost = \<lparr>views = 100, mu = Some 0\<rparr>, post_wg = 0, post_main = PReturned,
           viewers = AtUnlock # replicate 99 IncEnded, printed_views = Some 100,
           post_panic = None\<rparr>"
  by code_simp

theorem mutex_counter_exact_witness:
  "exec (post_step 100) source_post_run (post_init 100)
   = Some \<lparr>myPost = \<lparr>views = 100, mu = Some 0\<rparr>, post_wg = 0, post_main = PReturned,
           viewers = AtUnlock # replicate 99 IncEnded, printed_views = Some 100,
           post_panic = None\<rparr>
   \<and> printed_views \<lparr>myPost = \<lparr>views = 100, mu = Some 0\<rparr>, post_wg = 0, post_main = PReturned,
           viewers = AtUnlock # replicate 99 IncEnded, printed_views = Some 100,
           post_panic = None\<rparr> = Some (int 100)
   \<and> length source_post_run \<le> 7 * 100 + 2"
  using mutex_counter_exact [OF source_post_exec] source_post_exec
  by simp

section \<open>The worker pool: properties\<close>

lemma sum_list_map_update_mset:
  "k < length xs \<Longrightarrow>
   sum_list (map f (xs[k := y])) + f (xs ! k) = sum_list (map f xs) + (f y :: 'a multiset)"
  by (induction xs arbitrary: k) (auto split: nat.splits)

lemma unsent_feed_from [simp]:
  "unsent_jobs n_jobs (feed_from n_jobs j) = map int [j..<Suc n_jobs]"
  by (simp add: feed_from_def)

lemma unsent_start_from [simp]:
  "unsent_jobs n_jobs (start_from n_workers n_jobs w) = map int [1..<Suc n_jobs]"
  by (simp add: start_from_def)

lemma unsent_collect_from [simp]: "unsent_jobs n_jobs (collect_from n_jobs r) = []"
  by (simp add: collect_from_def)

lemma closed_at_from [simp]:
  "\<not> jobs_closed_at (feed_from n_jobs j)"
  "\<not> jobs_closed_at (start_from n_workers n_jobs w)"
  "jobs_closed_at (collect_from n_jobs r)"
  by (simp_all add: feed_from_def start_from_def collect_from_def)

lemma started_from [simp]:
  "w \<le> n_workers + 1 \<Longrightarrow> started n_workers (start_from n_workers n_jobs w) = w - 1"
  "started n_workers (feed_from n_jobs j) = n_workers"
  "started n_workers (collect_from n_jobs r) = n_workers"
  by (auto simp: feed_from_def start_from_def collect_from_def)

lemma n_collected_from [simp]:
  "r \<le> n_jobs + 1 \<Longrightarrow> n_collected n_jobs (collect_from n_jobs r) = r - 1"
  "n_collected n_jobs (feed_from n_jobs j) = 0"
  "n_collected n_jobs (start_from n_workers n_jobs w) = 0"
  by (auto simp: feed_from_def start_from_def collect_from_def)

lemma in_loop_from [simp]:
  "1 \<le> w \<Longrightarrow> pool_in_loop n_workers n_jobs (start_from n_workers n_jobs w)"
  "1 \<le> j \<Longrightarrow> pool_in_loop n_workers n_jobs (feed_from n_jobs j)"
  "1 \<le> r \<Longrightarrow> pool_in_loop n_workers n_jobs (collect_from n_jobs r)"
  by (auto simp: feed_from_def start_from_def collect_from_def)

lemma moves_from:
  "w \<le> n_workers \<Longrightarrow>
   pool_main_moves n_workers n_jobs (start_from n_workers n_jobs (w + 1)) + 2
   \<le> pool_main_moves n_workers n_jobs (Starting w)"
  "j \<le> n_jobs \<Longrightarrow>
   pool_main_moves n_workers n_jobs (feed_from n_jobs (j + 1)) + 3
   = pool_main_moves n_workers n_jobs (Feeding j)"
  "pool_main_moves n_workers n_jobs (collect_from n_jobs 1) + 1
   = pool_main_moves n_workers n_jobs ClosingJobs"
  "r \<le> n_jobs \<Longrightarrow>
   pool_main_moves n_workers n_jobs (collect_from n_jobs (r + 1)) + 1
   = pool_main_moves n_workers n_jobs (Collecting r)"
  by (auto simp: feed_from_def start_from_def collect_from_def)

lemma accounted_init: "accounted n_jobs (pool_init n_workers n_jobs) = mset (expected n_jobs)"
  by (simp add: accounted_def pool_init_def make_chan_def expected_def comp_def del: upt_Suc)

lemma pool_inv_init: "pool_inv n_workers n_jobs (pool_init n_workers n_jobs)"
  by (simp add: pool_inv_def accounted_init) (simp add: pool_init_def make_chan_def)

lemma pool_main_step_inv:
  assumes inv: "pool_inv n_workers n_jobs s"
    and step: "pool_main_step n_workers n_jobs s = Some s'"
  shows "pool_inv n_workers n_jobs s'
    \<and> pool_measure n_workers n_jobs s' < pool_measure n_workers n_jobs s"
proof (cases "pool_main s")
  case (Starting w)
  with step have s': "s' = s\<lparr>workers := workers s @ [WRanging],
      pool_main := start_from n_workers n_jobs (w + 1)\<rparr>"
    by (simp add: pool_main_step_def)
  from inv Starting have w: "1 \<le> w" "w \<le> n_workers" by (simp_all add: pool_inv_def)
  have "accounted n_jobs s' = accounted n_jobs s"
    by (simp add: accounted_def s' Starting del: upt_Suc)
  with inv Starting w have "pool_inv n_workers n_jobs s'"
    by (simp add: pool_inv_def) (auto simp: s')
  moreover from moves_from(1) [OF w(2), of n_jobs]
  have "pool_measure n_workers n_jobs s' < pool_measure n_workers n_jobs s"
    by (simp add: pool_measure_def s' Starting)
  ultimately show ?thesis by simp
next
  case (Feeding j)
  from inv Feeding have j: "1 \<le> j" "j \<le> n_jobs" and op: "\<not> chan_closed (jobs s)"
    and cap: "capacity (jobs s) = 5"
    by (simp_all add: pool_inv_def)
  from step Feeding op cap
  have s': "s' = s\<lparr>jobs := (jobs s)\<lparr>buffer := buffer (jobs s) @ [int j]\<rparr>,
      pool_main := feed_from n_jobs (j + 1)\<rparr>"
    by (simp add: pool_main_step_def send_def split: if_splits)
  from j have upt: "[j..<Suc n_jobs] = j # [Suc j..<Suc n_jobs]"
    by (simp add: upt_conv_Cons)
  have "accounted n_jobs s' = accounted n_jobs s"
    by (simp add: accounted_def s' Feeding upt del: upt_Suc)
  with inv Feeding j have "pool_inv n_workers n_jobs s'"
    by (simp add: pool_inv_def) (auto simp: s')
  moreover from moves_from(2) [OF j(2), of n_workers]
  have "pool_measure n_workers n_jobs s' < pool_measure n_workers n_jobs s"
    by (simp add: pool_measure_def s' Feeding)
  ultimately show ?thesis by simp
next
  case ClosingJobs
  from inv ClosingJobs have op: "\<not> chan_closed (jobs s)" by (simp add: pool_inv_def)
  with step ClosingJobs
  have s': "s' = s\<lparr>jobs := (jobs s)\<lparr>chan_closed := True\<rparr>, pool_main := collect_from n_jobs 1\<rparr>"
    by (simp add: pool_main_step_def close_def)
  have "accounted n_jobs s' = accounted n_jobs s"
    by (simp add: accounted_def s' ClosingJobs)
  with inv ClosingJobs have "pool_inv n_workers n_jobs s'"
    by (simp add: pool_inv_def) (auto simp: s')
  moreover from moves_from(3) [of n_workers n_jobs]
  have "pool_measure n_workers n_jobs s' < pool_measure n_workers n_jobs s"
    by (simp add: pool_measure_def s' ClosingJobs)
  ultimately show ?thesis by simp
next
  case (Collecting r)
  from inv Collecting have r: "1 \<le> r" "r \<le> n_jobs" and op: "\<not> chan_closed (results s)"
    by (simp_all add: pool_inv_def)
  from step Collecting op obtain v rest where buf: "buffer (results s) = v # rest"
    by (cases "buffer (results s)") (simp_all add: pool_main_step_def receive_def)
  with step Collecting
  have s': "s' = s\<lparr>results := (results s)\<lparr>buffer := rest\<rparr>, collected := collected s @ [v],
      pool_main := collect_from n_jobs (r + 1)\<rparr>"
    by (simp add: pool_main_step_def receive_def)
  have "accounted n_jobs s' = accounted n_jobs s"
    by (simp add: accounted_def s' Collecting buf)
  with inv Collecting r buf have "pool_inv n_workers n_jobs s'"
    by (simp add: pool_inv_def) (auto simp: s')
  moreover from moves_from(4) [OF r(2), of n_workers]
  have "pool_measure n_workers n_jobs s' < pool_measure n_workers n_jobs s"
    by (simp add: pool_measure_def s' Collecting)
  ultimately show ?thesis by simp
next
  case PoolReturned
  with step show ?thesis by (simp add: pool_main_step_def)
qed

lemma ended_after_update:
  "WEnded \<in> set (ws[k := y]) \<Longrightarrow> y \<noteq> WEnded \<Longrightarrow> WEnded \<in> set ws"
  using set_update_subset_insert [of ws k y] by auto

lemma worker_inv:
  assumes inv: "pool_inv n_workers n_jobs s" and step: "worker k s = Some s'"
  shows "pool_inv n_workers n_jobs s'
    \<and> pool_measure n_workers n_jobs s' < pool_measure n_workers n_jobs s"
proof -
  from step have k: "k < length (workers s)"
    by (simp add: worker_def split: if_splits)
  note upd_h = sum_list_map_update_mset [OF k, of in_hand]
  note upd_m = sum_list_map_update [OF k, of worker_moves]
  show ?thesis
  proof (cases "workers s ! k")
    case WRanging
    show ?thesis
    proof (cases "buffer (jobs s)")
      case (Cons j rest)
      with step k WRanging
      have s': "s' = s\<lparr>jobs := (jobs s)\<lparr>buffer := rest\<rparr>,
          workers := (workers s)[k := WSending j]\<rparr>"
        by (simp add: worker_def receive_def)
      from inv Cons have no_end: "WEnded \<notin> set (workers s)" by (auto simp: pool_inv_def)
      then have no_end': "WEnded \<notin> set ((workers s)[k := WSending j])"
        using ended_after_update [of "workers s" k "WSending j"] by auto
      from upd_h [of "WSending j"] WRanging
      have "accounted n_jobs s' = accounted n_jobs s"
        by (simp add: accounted_def s' Cons)
      with inv no_end' have "pool_inv n_workers n_jobs s'"
        by (simp add: pool_inv_def) (simp add: s')
      moreover from upd_m [of "WSending j"] WRanging
      have "pool_measure n_workers n_jobs s' < pool_measure n_workers n_jobs s"
        by (simp add: pool_measure_def s' Cons)
      ultimately show ?thesis by simp
    next
      case Nil
      with step k WRanging have cl: "chan_closed (jobs s)"
        and s': "s' = s\<lparr>workers := (workers s)[k := WEnded]\<rparr>"
        by (simp_all add: worker_def receive_def split: if_splits)
      from upd_h [of WEnded] WRanging
      have "accounted n_jobs s' = accounted n_jobs s"
        by (simp add: accounted_def s')
      with inv cl Nil have "pool_inv n_workers n_jobs s'"
        by (simp add: pool_inv_def) (simp add: s')
      moreover from upd_m [of WEnded] WRanging
      have "pool_measure n_workers n_jobs s' < pool_measure n_workers n_jobs s"
        by (simp add: pool_measure_def s')
      ultimately show ?thesis by simp
    qed
  next
    case (WSending j)
    from inv have op: "\<not> chan_closed (results s)" and cap: "capacity (results s) = 5"
      by (simp_all add: pool_inv_def)
    from step k WSending op cap
    have s': "s' = s\<lparr>results := (results s)\<lparr>buffer := buffer (results s) @ [j * 2]\<rparr>,
        workers := (workers s)[k := WRanging]\<rparr>"
      by (simp add: worker_def send_def split: if_splits)
    have keep: "WEnded \<in> set ((workers s)[k := WRanging]) \<Longrightarrow> WEnded \<in> set (workers s)"
      using ended_after_update [of "workers s" k WRanging] by simp
    from upd_h [of WRanging] WSending
    have "accounted n_jobs s' = accounted n_jobs s"
      by (simp add: accounted_def s')
    with inv keep have "pool_inv n_workers n_jobs s'"
      by (simp add: pool_inv_def) (auto simp: s')
    moreover from upd_m [of WRanging] WSending
    have "pool_measure n_workers n_jobs s' < pool_measure n_workers n_jobs s"
      by (simp add: pool_measure_def s')
    ultimately show ?thesis by simp
  next
    case WEnded
    with step k show ?thesis by (simp add: worker_def)
  qed
qed

lemma pool_step_inv:
  assumes "pool_inv n_workers n_jobs s" and "pool_step n_workers n_jobs e s = Some s'"
  shows "pool_inv n_workers n_jobs s'
    \<and> pool_measure n_workers n_jobs s' < pool_measure n_workers n_jobs s"
proof (cases e)
  case PoolMain
  with assms(2) have "pool_main_step n_workers n_jobs s = Some s'"
    by (simp add: pool_step_def split: if_splits)
  with assms(1) show ?thesis by (rule pool_main_step_inv)
next
  case (Worker k)
  with assms(2) have "worker k s = Some s'"
    by (simp add: pool_step_def split: if_splits)
  with assms(1) show ?thesis by (rule worker_inv)
qed

lemma pool_reach_inv:
  assumes "exec (pool_step n_workers n_jobs) es (pool_init n_workers n_jobs) = Some s"
  shows "pool_inv n_workers n_jobs s"
proof (rule exec_invariant [where I = "pool_inv n_workers n_jobs"
      and step = "pool_step n_workers n_jobs"])
  show "pool_inv n_workers n_jobs (pool_init n_workers n_jobs)" by (rule pool_inv_init)
  show "exec (pool_step n_workers n_jobs) es (pool_init n_workers n_jobs) = Some s"
    by (rule assms)
  show "\<And>e s s'. pool_inv n_workers n_jobs s \<Longrightarrow> pool_step n_workers n_jobs e s = Some s'
      \<Longrightarrow> pool_inv n_workers n_jobs s'"
    by (simp add: pool_step_inv)
qed

lemma pool_reach_bounded:
  assumes "exec (pool_step n_workers n_jobs) es (pool_init n_workers n_jobs) = Some s"
  shows "length es \<le> 2 * n_workers + 4 * n_jobs + 1"
proof -
  have "length es + pool_measure n_workers n_jobs s
      \<le> pool_measure n_workers n_jobs (pool_init n_workers n_jobs)"
  proof (rule exec_bounded [where I = "pool_inv n_workers n_jobs"
        and step = "pool_step n_workers n_jobs"])
    show "pool_inv n_workers n_jobs (pool_init n_workers n_jobs)" by (rule pool_inv_init)
    show "exec (pool_step n_workers n_jobs) es (pool_init n_workers n_jobs) = Some s"
      by (rule assms)
    show "\<And>e s s'. pool_inv n_workers n_jobs s \<Longrightarrow> pool_step n_workers n_jobs e s = Some s'
        \<Longrightarrow> pool_inv n_workers n_jobs s'
          \<and> pool_measure n_workers n_jobs s' < pool_measure n_workers n_jobs s"
      by (rule pool_step_inv)
  qed
  moreover have "pool_measure n_workers n_jobs (pool_init n_workers n_jobs)
      \<le> 2 * n_workers + 4 * n_jobs + 1"
    by (simp add: pool_measure_def pool_init_def make_chan_def start_from_def feed_from_def)
  ultimately show ?thesis by simp
qed

lemma pool_all_collected:
  assumes inv: "pool_inv n_workers n_jobs s" and ret: "pool_main s = PoolReturned"
  shows "mset (collected s) = mset (expected n_jobs) \<and> length (collected s) = n_jobs"
proof -
  from inv ret have len: "length (collected s) = n_jobs" by (simp add: pool_inv_def)
  define others where "others =
     mset (map (\<lambda>j. j * 2) (buffer (jobs s))) + sum_list (map in_hand (workers s))
     + mset (buffer (results s))"
  from inv ret have eq: "others + mset (collected s) = mset (expected n_jobs)"
    by (simp add: pool_inv_def accounted_def others_def)
  then have "size others + size (mset (collected s)) = size (mset (expected n_jobs))"
    by (metis size_union)
  with len have "size others = 0" by (simp add: expected_def del: upt_Suc)
  then have "others = {#}" by simp
  with eq len show ?thesis by simp
qed

lemma all_sending_size:
  "\<forall>w \<in> set ws. \<exists>j. w = WSending j \<Longrightarrow> size (sum_list (map in_hand ws)) = length ws"
  by (induction ws) auto

lemma no_sending_empty:
  "\<forall>w \<in> set ws. \<forall>j. w \<noteq> WSending j \<Longrightarrow> sum_list (map in_hand ws) = {#}"
proof (induction ws)
  case Nil
  then show ?case by simp
next
  case (Cons w ws)
  then have "in_hand w = {#}" by (cases w) simp_all
  with Cons show ?case by simp
qed

lemma worker_can_receive:
  assumes "pool_panic s = None" and "pool_main s \<noteq> PoolReturned"
    and "WRanging \<in> set (workers s)" and "buffer (jobs s) \<noteq> []"
  shows "\<exists>e s'. pool_step n_workers n_jobs e s = Some s'"
proof -
  from assms(3) obtain k where k: "k < length (workers s)" and at: "workers s ! k = WRanging"
    by (auto simp: in_set_conv_nth)
  from assms(4) obtain j rest where "buffer (jobs s) = j # rest"
    by (cases "buffer (jobs s)") simp_all
  with assms(1,2) k at have "\<exists>s'. pool_step n_workers n_jobs (Worker k) s = Some s'"
    by (simp add: pool_step_def worker_def receive_def)
  then show ?thesis by blast
qed

lemma worker_can_send:
  assumes "pool_panic s = None" and "pool_main s \<noteq> PoolReturned"
    and "WSending j \<in> set (workers s)" and "\<not> chan_closed (results s)"
    and "capacity (results s) = 5" and "length (buffer (results s)) < 5"
  shows "\<exists>e s'. pool_step n_workers n_jobs e s = Some s'"
proof -
  from assms(3) obtain k where k: "k < length (workers s)" and at: "workers s ! k = WSending j"
    by (auto simp: in_set_conv_nth)
  with assms(1,2,4,5,6) have "\<exists>s'. pool_step n_workers n_jobs (Worker k) s = Some s'"
    by (simp add: pool_step_def worker_def send_def)
  then show ?thesis by blast
qed

lemma size_accounted:
  assumes "pool_inv n_workers n_jobs s"
  shows "length (unsent_jobs n_jobs (pool_main s)) + length (buffer (jobs s))
    + size (sum_list (map in_hand (workers s))) + length (buffer (results s))
    + length (collected s) = n_jobs"
proof -
  from assms have "size (accounted n_jobs s) = size (mset (expected n_jobs))"
    by (simp add: pool_inv_def)
  then show ?thesis by (simp add: accounted_def expected_def del: upt_Suc)
qed

lemma pool_progress:
  assumes inv: "pool_inv n_workers n_jobs s" and run: "pool_main s \<noteq> PoolReturned"
    and some_worker: "1 \<le> n_workers" and room: "n_jobs \<le> 10 + n_workers"
  shows "\<exists>e s'. pool_step n_workers n_jobs e s = Some s'"
proof -
  from inv have ok: "pool_panic s = None" and capj: "capacity (jobs s) = 5"
    and capr: "capacity (results s) = 5" and openr: "\<not> chan_closed (results s)"
    and ended: "WEnded \<in> set (workers s) \<longrightarrow> chan_closed (jobs s) \<and> buffer (jobs s) = []"
    by (auto simp: pool_inv_def)
  note size = size_accounted [OF inv]
  show ?thesis
  proof (cases "pool_main s")
    case (Starting w)
    with ok have "\<exists>s'. pool_step n_workers n_jobs PoolMain s = Some s'"
      by (simp add: pool_step_def pool_main_step_def)
    then show ?thesis by blast
  next
    case ClosingJobs
    with inv have "\<not> chan_closed (jobs s)" by (simp add: pool_inv_def)
    with ok ClosingJobs have "\<exists>s'. pool_step n_workers n_jobs PoolMain s = Some s'"
      by (simp add: pool_step_def pool_main_step_def close_def)
    then show ?thesis by blast
  next
    case PoolReturned
    with run show ?thesis by simp
  next
    case (Feeding j)
    with inv have openj: "\<not> chan_closed (jobs s)" and j: "j \<le> n_jobs"
      and len: "length (workers s) = n_workers"
      by (simp_all add: pool_inv_def)
    show ?thesis
    proof (cases "length (buffer (jobs s)) < 5")
      case True
      with ok Feeding openj capj
      have "\<exists>s'. pool_step n_workers n_jobs PoolMain s = Some s'"
        by (simp add: pool_step_def pool_main_step_def send_def)
      then show ?thesis by blast
    next
      case full: False
      then have nonempty: "buffer (jobs s) \<noteq> []" by auto
      show ?thesis
      proof (cases "WRanging \<in> set (workers s)")
        case True
        from worker_can_receive [OF ok run True nonempty] show ?thesis .
      next
        case no_ranging: False
        from ended openj have no_ended: "WEnded \<notin> set (workers s)" by auto
        have all_sending: "\<forall>w \<in> set (workers s). \<exists>i. w = WSending i"
        proof
          fix w assume "w \<in> set (workers s)"
          with no_ranging no_ended show "\<exists>i. w = WSending i" by (cases w) auto
        qed
        from len some_worker have "workers s \<noteq> []" by auto
        then obtain w where "w \<in> set (workers s)" by (cases "workers s") auto
        with all_sending obtain i where i: "WSending i \<in> set (workers s)" by auto
        show ?thesis
        proof (cases "length (buffer (results s)) < 5")
          case True
          from worker_can_send [OF ok run i openr capr True] show ?thesis .
        next
          case False
          from all_sending_size [OF all_sending] len
          have "size (sum_list (map in_hand (workers s))) = n_workers" by simp
          moreover from Feeding j have "1 \<le> length (unsent_jobs n_jobs (pool_main s))"
            by simp
          ultimately have "11 + n_workers \<le> n_jobs" using size full False by linarith
          with room show ?thesis by simp
        qed
      qed
    qed
  next
    case (Collecting r)
    with inv have r: "1 \<le> r" "r \<le> n_jobs" and got: "length (collected s) = r - 1"
      and len: "length (workers s) = n_workers"
      by (simp_all add: pool_inv_def)
    show ?thesis
    proof (cases "buffer (results s)")
      case (Cons v rest)
      with ok Collecting have "\<exists>s'. pool_step n_workers n_jobs PoolMain s = Some s'"
        by (simp add: pool_step_def pool_main_step_def receive_def)
      then show ?thesis by blast
    next
      case Nil
      show ?thesis
      proof (cases "\<exists>i. WSending i \<in> set (workers s)")
        case True
        then obtain i where i: "WSending i \<in> set (workers s)" by blast
        from Nil have "length (buffer (results s)) < 5" by simp
        from worker_can_send [OF ok run i openr capr this] show ?thesis .
      next
        case False
        then have "\<forall>w \<in> set (workers s). \<forall>i. w \<noteq> WSending i" by auto
        then have "sum_list (map in_hand (workers s)) = {#}" by (rule no_sending_empty)
        with size Collecting Nil got r have "1 \<le> length (buffer (jobs s))" by simp
        then have nonempty: "buffer (jobs s) \<noteq> []" by auto
        with ended have no_ended: "WEnded \<notin> set (workers s)" by auto
        from len some_worker have "workers s \<noteq> []" by auto
        then obtain w where w: "w \<in> set (workers s)" by (cases "workers s") auto
        with False no_ended have "w = WRanging" by (cases w) auto
        with w have "WRanging \<in> set (workers s)" by simp
        from worker_can_receive [OF ok run this nonempty] show ?thesis .
      qed
    qed
  qed
qed

text \<open>
  C1. In every run of the worker pool, for any number of workers and of jobs: nothing
  panics; the double of every job is accounted for exactly once (not yet sent, in a buffer,
  in the hands of a worker, or collected); while \<^verbatim>\<open>main\<close> waits for result number
  \<open>r\<close> it has collected \<open>r - 1\<close> results; when \<^verbatim>\<open>main\<close> has returned it has
  collected exactly as many results as there are jobs, and they are the doubles of the jobs
  in some order; with at least one worker and at most \<open>10 + n_workers\<close> jobs (the two
  buffers of 5 and one job per worker) some task can move until \<^verbatim>\<open>main\<close> has returned
  (no deadlock); and a run has at most \<open>2 * n_workers + 4 * n_jobs + 1\<close> moves. So with
  3 workers, every run of 5 jobs (the source) ends with exactly 5 results and every run of
  10 jobs (the specification) with exactly 10.
\<close>

theorem worker_pool_results:
  assumes "exec (pool_step n_workers n_jobs) es (pool_init n_workers n_jobs) = Some s"
  shows "pool_panic s = None
    \<and> accounted n_jobs s = mset (expected n_jobs)
    \<and> (\<forall>r. pool_main s = Collecting r \<longrightarrow> length (collected s) = r - 1 \<and> r \<le> n_jobs)
    \<and> (pool_main s = PoolReturned \<longrightarrow>
         mset (collected s) = mset (expected n_jobs) \<and> length (collected s) = n_jobs)
    \<and> (1 \<le> n_workers \<and> n_jobs \<le> 10 + n_workers \<and> pool_main s \<noteq> PoolReturned \<longrightarrow>
         (\<exists>e s'. pool_step n_workers n_jobs e s = Some s'))
    \<and> length es \<le> 2 * n_workers + 4 * n_jobs + 1"
proof -
  have inv: "pool_inv n_workers n_jobs s" using assms by (rule pool_reach_inv)
  have "pool_panic s = None" and "accounted n_jobs s = mset (expected n_jobs)"
    using inv by (simp_all add: pool_inv_def)
  moreover have "\<forall>r. pool_main s = Collecting r \<longrightarrow> length (collected s) = r - 1 \<and> r \<le> n_jobs"
    using inv by (auto simp: pool_inv_def)
  moreover have "pool_main s = PoolReturned \<longrightarrow>
      mset (collected s) = mset (expected n_jobs) \<and> length (collected s) = n_jobs"
    using pool_all_collected [OF inv] by simp
  moreover have "1 \<le> n_workers \<and> n_jobs \<le> 10 + n_workers \<and> pool_main s \<noteq> PoolReturned \<longrightarrow>
      (\<exists>e s'. pool_step n_workers n_jobs e s = Some s')"
    using pool_progress [OF inv] by simp
  moreover have "length es \<le> 2 * n_workers + 4 * n_jobs + 1"
    using assms by (rule pool_reach_bounded)
  ultimately show ?thesis by simp
qed

lemma spec_pool_exec:
  "exec (pool_step 3 10) spec_pool_run (pool_init 3 10)
   = Some \<lparr>jobs = \<lparr>capacity = 5, buffer = [], chan_closed = True\<rparr>,
           results = \<lparr>capacity = 5, buffer = [], chan_closed = False\<rparr>,
           pool_main = PoolReturned, workers = [WEnded, WEnded, WEnded],
           collected = [6, 4, 8, 10, 12, 2, 14, 18, 20, 16], pool_panic = None\<rparr>"
  by code_simp

lemma source_pool_exec:
  "exec (pool_step 3 5) source_pool_run (pool_init 3 5)
   = Some \<lparr>jobs = \<lparr>capacity = 5, buffer = [], chan_closed = True\<rparr>,
           results = \<lparr>capacity = 5, buffer = [], chan_closed = False\<rparr>,
           pool_main = PoolReturned, workers = [WRanging, WEnded, WEnded],
           collected = [6, 2, 4, 8, 10], pool_panic = None\<rparr>"
  by code_simp

theorem worker_pool_results_witness:
  "exec (pool_step 3 10) spec_pool_run (pool_init 3 10)
   = Some \<lparr>jobs = \<lparr>capacity = 5, buffer = [], chan_closed = True\<rparr>,
           results = \<lparr>capacity = 5, buffer = [], chan_closed = False\<rparr>,
           pool_main = PoolReturned, workers = [WEnded, WEnded, WEnded],
           collected = [6, 4, 8, 10, 12, 2, 14, 18, 20, 16], pool_panic = None\<rparr>
   \<and> mset [6, 4, 8, 10, 12, 2, 14, 18, 20, 16] = mset (expected 10)
   \<and> exec (pool_step 3 5) source_pool_run (pool_init 3 5)
   = Some \<lparr>jobs = \<lparr>capacity = 5, buffer = [], chan_closed = True\<rparr>,
           results = \<lparr>capacity = 5, buffer = [], chan_closed = False\<rparr>,
           pool_main = PoolReturned, workers = [WRanging, WEnded, WEnded],
           collected = [6, 2, 4, 8, 10], pool_panic = None\<rparr>
   \<and> mset [6, 2, 4, 8, 10] = mset (expected 5)"
  using worker_pool_results [OF spec_pool_exec] worker_pool_results [OF source_pool_exec]
    spec_pool_exec source_pool_exec
  by simp

end
